theory Spec2Isabelle
  imports Main "HOL-Library.Word"
begin

unbundle bit_operations_syntax

section \<open>Data model of the QEMU broker (plugins/qemu-broker/Broker.cpp)\<close>

text \<open>
  The embedding follows \<^verbatim>\<open>Broker.cpp\<close>. Machine integers whose width the code depends on
  are words: slice bounds are \<^verbatim>\<open>uint16_t\<close>, address offsets \<^verbatim>\<open>uint8_t\<close>, addresses
  \<^verbatim>\<open>uint64_t\<close>, wire indices and access sizes \<^verbatim>\<open>uint32_t\<close>/\<^verbatim>\<open>unsigned\<close>, fetch sizes
  \<^verbatim>\<open>int\<close>. Container positions (\<^verbatim>\<open>size_t\<close>) and the instruction indices kept in the skew
  map and in memory-access chains (\<^verbatim>\<open>unsigned\<close>) are natural numbers: they count elements
  of vectors that were received in one size-prefixed message of fewer than \<open>2^32\<close> bytes, so
  they never reach \<open>2^32\<close>.

  A failed \<^verbatim>\<open>assert\<close>, an out-of-range element access and a call through a null
  pointer are faults of the model: the process stops there.
\<close>

datatype fault = AssertionFailed | OutOfBounds | NullPointer

type_synonym RawInstTy = "8 word list"

text \<open>\<^verbatim>\<open>mca::MDMemoryAccess\<close>: \<^verbatim>\<open>bool IsStore; uint64_t Addr; unsigned Size\<close>.\<close>

record MDMemoryAccess =
  IsStore :: bool
  Addr :: "64 word"
  Size :: "32 word"

type_synonym MemoryAccessEntry = "nat \<times> MDMemoryAccess"
type_synonym MemoryAccessChain = "MemoryAccessEntry list"

text \<open>A memory-access record of an \<^verbatim>\<open>ExecTB\<close> message (\<^verbatim>\<open>fbs::MemAccess\<close>).\<close>

record FbMemAccess =
  fbIndex :: "32 word"
  fbIsStore :: bool
  fbVAddr :: "64 word"
  fbSize :: "32 word"

text \<open>
  \<^verbatim>\<open>qemu_broker::BinaryRegion\<close> is declared in \<^verbatim>\<open>BinaryRegions.h\<close>; the broker reads its
  \<^verbatim>\<open>Description\<close> and \<^verbatim>\<open>EndAddr\<close>.
\<close>

record BinaryRegion =
  Description :: string
  EndAddr :: "64 word"

record 'i TranslationBlock =
  RawInsts :: "RawInstTy list"
  MCInsts :: "'i list"
  SkewIndicies :: "nat \<rightharpoonup> nat"
  VAddr :: "64 word"
  VAddrOffsets :: "8 word list"

record TBSlice =
  Index :: nat
  BeginIdx :: "16 word"
  EndIdx :: "16 word"
  Region :: "BinaryRegion option"
  MemoryAccesses :: "MemoryAccessChain option"

section \<open>Splitting a slice\<close>

text \<open>
  \<^verbatim>\<open>llvm::lower_bound\<close> is \<^verbatim>\<open>std::lower_bound\<close>: a binary search over the positions
  \<open>[first, first + len)\<close> for the first entry whose index is not below \<open>Idx\<close>.
\<close>

function lower_bound :: "MemoryAccessChain \<Rightarrow> nat \<Rightarrow> nat \<Rightarrow> nat \<Rightarrow> nat" where
  "lower_bound MAs first len Idx =
     (if len = 0 then first
      else let half = len div 2; mid = first + half
           in if fst (MAs ! mid) < Idx
              then lower_bound MAs (mid + 1) (len - half - 1) Idx
              else lower_bound MAs first half Idx)"
  by pat_completeness auto
termination
  by (relation "measure (\<lambda>(MAs, first, len, Idx). len)") auto

declare lower_bound.simps [simp del]

text \<open>
  \<^verbatim>\<open>TBSlice::split\<close> returns the new front slice and the updated receiver (the slice that
  stays in the queue).
\<close>

definition split :: "TBSlice \<Rightarrow> 16 word \<Rightarrow> fault + (TBSlice \<times> TBSlice)" where
  "split s SplitPoint =
     (if \<not> (BeginIdx s < SplitPoint \<and> SplitPoint < EndIdx s) then Inl AssertionFailed
      else
        let NewSlice = \<lparr>Index = Index s, BeginIdx = BeginIdx s, EndIdx = SplitPoint,
                         Region = Region s, MemoryAccesses = None\<rparr>;
            (NewMAs, CurMAs) =
              (case MemoryAccesses s of
                 None \<Rightarrow> (None, None)
               | Some MAs \<Rightarrow>
                   let MASplit = lower_bound MAs 0 (length MAs) (unat SplitPoint)
                   in if MASplit \<noteq> length MAs
                      then (Some (take MASplit MAs), Some (drop MASplit MAs))
                      else (None, Some MAs))
        in Inr (NewSlice\<lparr>MemoryAccesses := NewMAs\<rparr>,
                s\<lparr>MemoryAccesses := CurMAs, BeginIdx := SplitPoint\<rparr>))"

section \<open>Building the memory-access chain (tbExec)\<close>

text \<open>One iteration of the loop over \<^verbatim>\<open>OrigTB.MemAccesses()\<close>.\<close>

definition add_access ::
  "(nat \<rightharpoonup> nat) \<Rightarrow> MemoryAccessChain \<Rightarrow> FbMemAccess \<Rightarrow> MemoryAccessChain" where
  "add_access Skew MemAccesses FbMA =
     (let InstIdx = (case Skew (unat (fbIndex FbMA)) of
                       Some di \<Rightarrow> di
                     | None \<Rightarrow> unat (fbIndex FbMA))
      in if MemAccesses \<noteq> [] \<and> fst (last MemAccesses) = InstIdx
         then
           let MA = snd (last MemAccesses);
               NewAddr = min (Addr MA) (fbVAddr FbMA);
               NewEndAddr = max (Addr MA + ucast (Size MA)) (fbVAddr FbMA + ucast (fbSize FbMA));
               NewSize = (ucast (NewEndAddr - NewAddr) :: 32 word)
           in butlast MemAccesses @
                [(InstIdx, \<lparr>IsStore = (IsStore MA \<or> fbIsStore FbMA),
                            Addr = NewAddr, Size = NewSize\<rparr>)]
         else MemAccesses @
                [(InstIdx, \<lparr>IsStore = fbIsStore FbMA, Addr = fbVAddr FbMA,
                            Size = fbSize FbMA\<rparr>)])"

definition build_chain :: "(nat \<rightharpoonup> nat) \<Rightarrow> FbMemAccess list \<Rightarrow> MemoryAccessChain" where
  "build_chain Skew FbMAs = foldl (add_access Skew) [] FbMAs"

section \<open>Disassembling a translation block\<close>

text \<open>
  The disassembler is an external collaborator. A disassembler stands for
  \<^verbatim>\<open>MCDisassembler::getInstruction\<close> on the bytes from the current offset and their
  address: \<open>Some (MCI, Size)\<close> when it reports success, \<open>None\<close> otherwise.
\<close>

type_synonym 'i Disassembler = "8 word list \<Rightarrow> 64 word \<Rightarrow> ('i \<times> 64 word) option"

text \<open>
  What the broker reads of \<^verbatim>\<open>TheTarget\<close> and \<^verbatim>\<open>STI\<close>: the triple's \<^verbatim>\<open>isARM()\<close> and
  \<^verbatim>\<open>isThumb()\<close>, the subtarget feature \<^verbatim>\<open>+mclass\<close>, and \<^verbatim>\<open>createMCDisassembler\<close> for
  \<^verbatim>\<open>STI\<close> (\<open>True\<close>) and for the secondary subtarget info with \<^verbatim>\<open>thumb-mode\<close> flipped
  (\<open>False\<close>); a null pointer is \<open>None\<close>.
\<close>

record 'i Target =
  isARM :: bool
  isThumb :: bool
  mclass :: bool
  createMCDisassembler :: "bool \<Rightarrow> 'i Disassembler option"

text \<open>
  \<^verbatim>\<open>initializeDisassembler\<close>: \<^verbatim>\<open>DisAsm\<close> is always created; \<^verbatim>\<open>SecondaryDisAsm\<close> only for
  an ARM or Thumb triple without \<^verbatim>\<open>+mclass\<close>, and it stays null otherwise.
\<close>

definition DisAsm :: "'i Target \<Rightarrow> 'i Disassembler option" where
  "DisAsm T = createMCDisassembler T True"

definition SecondaryDisAsm :: "'i Target \<Rightarrow> 'i Disassembler option" where
  "SecondaryDisAsm T =
     (if (isARM T \<or> isThumb T) \<and> \<not> mclass T then createMCDisassembler T False else None)"

text \<open>
  \<^verbatim>\<open>useDisassembler(Primary)\<close>: the new value of the pointer \<^verbatim>\<open>CurDisAsm\<close>.
\<close>

definition useDisassembler :: "'i Target \<Rightarrow> bool \<Rightarrow> 'i Disassembler option" where
  "useDisassembler T Primary = (if Primary then DisAsm T else SecondaryDisAsm T)"

text \<open>\<^verbatim>\<open>if (!DisAsmSize) DisAsmSize = 1; ... Index += DisAsmSize\<close>\<close>

definition next_Index :: "64 word \<Rightarrow> 64 word \<Rightarrow> 64 word" where
  "next_Index ByteIndex DisAsmSize = ByteIndex + (if DisAsmSize = 0 then 1 else DisAsmSize)"

text \<open>
  The \<^verbatim>\<open>while (Index < Len)\<close> loop over the bytes of one raw instruction, with the pointer
  \<open>Cur\<close> that \<^verbatim>\<open>CurDisAsm->getInstruction\<close> goes through. It returns the updated
  \<^verbatim>\<open>SkewIdxOffset\<close> and translation block, or faults on a null \<open>Cur\<close>; \<open>None\<close> is a loop
  that never exits.
\<close>

partial_function (option) decode_loop ::
  "'i Disassembler option \<Rightarrow> RawInstTy \<Rightarrow> 64 word \<Rightarrow> 64 word \<Rightarrow>
   64 word \<Rightarrow> nat \<Rightarrow> nat \<Rightarrow> 'i TranslationBlock \<Rightarrow> (fault + nat \<times> 'i TranslationBlock) option"
  where
  "decode_loop Cur RawInst CurVAddr StartVAddr ByteIndex NumMCInsts SkewIdxOffset TB =
     (if unat ByteIndex < length RawInst
      then (case Cur of
              None \<Rightarrow> Some (Inl NullPointer)
            | Some getInstruction \<Rightarrow>
                (case getInstruction (drop (unat ByteIndex) RawInst) (CurVAddr + ByteIndex) of
                   None \<Rightarrow> Some (Inr (SkewIdxOffset, TB))
                 | Some (MCI, DisAsmSize) \<Rightarrow>
                     decode_loop Cur RawInst CurVAddr StartVAddr
                       (next_Index ByteIndex DisAsmSize)
                       (NumMCInsts + 1)
                       (if NumMCInsts + 1 > 1 then SkewIdxOffset + 1 else SkewIdxOffset)
                       (TB\<lparr>MCInsts := MCInsts TB @ [MCI],
                           VAddrOffsets := VAddrOffsets TB @
                             [ucast (CurVAddr + ByteIndex - StartVAddr)]\<rparr>)))
      else Some (Inr (SkewIdxOffset, TB)))"

declare decode_loop.simps [code]

text \<open>The \<^verbatim>\<open>for (const auto &RawInst : TB.RawInsts)\<close> loop.\<close>

fun disassemble_insts ::
  "'i Disassembler option \<Rightarrow> 64 word \<Rightarrow> RawInstTy list \<Rightarrow>
   64 word \<Rightarrow> nat \<Rightarrow> nat \<Rightarrow> 'i TranslationBlock \<Rightarrow> (fault + 'i TranslationBlock) option" where
  "disassemble_insts Cur StartVAddr [] CurVAddr RawInstIdx SkewIdxOffset TB = Some (Inr TB)"
| "disassemble_insts Cur StartVAddr (RawInst # Rest) CurVAddr RawInstIdx SkewIdxOffset TB =
     (case decode_loop Cur RawInst CurVAddr StartVAddr 0 0 SkewIdxOffset
             (if SkewIdxOffset > 0
              then TB\<lparr>SkewIndicies := (SkewIndicies TB)(RawInstIdx \<mapsto> RawInstIdx + SkewIdxOffset)\<rparr>
              else TB) of
        None \<Rightarrow> None
      | Some (Inl f) \<Rightarrow> Some (Inl f)
      | Some (Inr (SkewIdxOffset', TB')) \<Rightarrow>
          disassemble_insts Cur StartVAddr Rest (CurVAddr + of_nat (length RawInst))
            (RawInstIdx + 1) SkewIdxOffset' TB')"

text \<open>
  The head of \<^verbatim>\<open>QemuBroker::disassemble\<close>: on an ARM or Thumb triple the low bit of the
  block's address chooses the disassembler through \<^verbatim>\<open>useDisassembler\<close>, otherwise
  \<^verbatim>\<open>CurDisAsm\<close> stays as it is; and \<^verbatim>\<open>StartVAddr\<close>, the address without that bit.
\<close>

definition select_disassembler ::
  "'i Target \<Rightarrow> 'i Disassembler option \<Rightarrow> 'i TranslationBlock \<Rightarrow> 'i Disassembler option" where
  "select_disassembler T Cur TB =
     (if isARM T \<or> isThumb T
      then (if VAddr TB AND 1 \<noteq> 0 then useDisassembler T (isThumb T)
            else useDisassembler T (isARM T))
      else Cur)"

definition start_vaddr :: "'i Target \<Rightarrow> 'i TranslationBlock \<Rightarrow> 64 word" where
  "start_vaddr T TB = (if isARM T \<or> isThumb T then VAddr TB AND NOT 1 else VAddr TB)"

text \<open>
  \<^verbatim>\<open>QemuBroker::disassemble\<close>, for the pointer \<open>Cur\<close> held in \<^verbatim>\<open>CurDisAsm\<close>: the new
  pointer and the block, or the fault of a call through a null disassembler.
\<close>

definition disassemble ::
  "'i Target \<Rightarrow> 'i Disassembler option \<Rightarrow> 'i TranslationBlock \<Rightarrow>
   (fault + 'i Disassembler option \<times> 'i TranslationBlock) option" where
  "disassemble T Cur TB =
     (if MCInsts TB \<noteq> [] then Some (Inr (Cur, TB))
      else
        let Cur' = select_disassembler T Cur TB;
            StartVAddr = start_vaddr T TB
        in case disassemble_insts Cur' StartVAddr (RawInsts TB) StartVAddr 0 0 TB of
             None \<Rightarrow> None
           | Some (Inl f) \<Rightarrow> Some (Inl f)
           | Some (Inr TB') \<Rightarrow> Some (Inr (Cur', TB')))"

text \<open>\<^verbatim>\<open>TranslationBlock(size_t Size)\<close> followed by the copy of the raw bytes in \<^verbatim>\<open>addTB\<close>.\<close>

definition NewTB :: "RawInstTy list \<Rightarrow> 'i TranslationBlock" where
  "NewTB Insts = \<lparr>RawInsts = Insts, MCInsts = [], SkewIndicies = Map.empty, VAddr = 0,
                  VAddrOffsets = []\<rparr>"

section \<open>Small targets for concrete runs\<close>

text \<open>
  Every byte is one instruction of size one; bytes listed in \<open>Bad\<close> do not decode.
  \<open>byte_target\<close> is neither ARM nor Thumb; \<open>arm_mclass_target\<close> is an ARM triple with
  \<^verbatim>\<open>+mclass\<close>.
\<close>

definition byte_decoder :: "8 word list \<Rightarrow> 8 word Disassembler" where
  "byte_decoder Bad Bytes Address =
     (case Bytes of [] \<Rightarrow> None | b # _ \<Rightarrow> if b \<in> set Bad then None else Some (b, 1))"

definition byte_target :: "8 word list \<Rightarrow> 8 word Target" where
  "byte_target Bad = \<lparr>isARM = False, isThumb = False, mclass = False,
                      createMCDisassembler = (\<lambda>Primary. Some (byte_decoder Bad))\<rparr>"

definition arm_mclass_target :: "8 word Target" where
  "arm_mclass_target = \<lparr>isARM = True, isThumb = False, mclass = True,
                        createMCDisassembler = (\<lambda>Primary. Some (byte_decoder []))\<rparr>"

text \<open>
  Every raw instruction yields at least one decoded instruction: none is empty, and the
  first decode of each, at its address, succeeds.
\<close>

fun first_decodes :: "'i Disassembler option \<Rightarrow> RawInstTy list \<Rightarrow> 64 word \<Rightarrow> bool" where
  "first_decodes Cur [] CurVAddr = True"
| "first_decodes Cur (RawInst # Rest) CurVAddr =
     (RawInst \<noteq> [] \<and>
      (case Cur of None \<Rightarrow> False | Some getInstruction \<Rightarrow> getInstruction RawInst CurVAddr \<noteq> None) \<and>
      first_decodes Cur Rest (CurVAddr + of_nat (length RawInst)))"


section \<open>The broker\<close>

text \<open>
  \<^verbatim>\<open>qemu_broker::BinaryRegions\<close> is declared in \<^verbatim>\<open>BinaryRegions.h\<close>; the broker calls its
  \<^verbatim>\<open>size()\<close> and \<^verbatim>\<open>lookup(addr)\<close>, which are taken as they come.
\<close>

record BinaryRegions =
  regions_size :: nat
  lookup_region :: "64 word \<Rightarrow> BinaryRegion option"

text \<open>
  The members of \<^verbatim>\<open>QemuBroker\<close> that the message handlers and the fetch engine use.
  \<open>TheTarget\<close> stands for the target triple and the two disassemblers, \<open>CurDisAsm\<close> is the
  pointer to the current one.
\<close>

record 'i QemuBroker =
  TheTarget :: "'i Target"
  BinRegions :: "BinaryRegions option"
  CurBinRegion :: "BinaryRegion option"
  CodeStartAddress :: "64 word"
  CurDisAsm :: "'i Disassembler option"
  TBs :: "'i TranslationBlock option list"
  TBQueue :: "TBSlice list"
  IsEndOfStream :: bool
  TotalNumTraces :: "32 word"

text \<open>
  The state after the constructor (\<^verbatim>\<open>initializeDisassembler\<close> sets
  \<^verbatim>\<open>CurDisAsm = DisAsm.get()\<close>).
\<close>

definition init_broker :: "'i Target \<Rightarrow> BinaryRegions option \<Rightarrow> 'i QemuBroker" where
  "init_broker T Regions =
     \<lparr>TheTarget = T, BinRegions = Regions, CurBinRegion = None, CodeStartAddress = 0,
      CurDisAsm = DisAsm T, TBs = [], TBQueue = [], IsEndOfStream = False, TotalNumTraces = 0\<rparr>"

text \<open>The three kinds of \<^verbatim>\<open>fbs::Message\<close>.\<close>

datatype Message =
    Metadata "64 word"
  | TranslatedBlock "32 word" "RawInstTy list"
  | ExecTB "32 word" "64 word" "FbMemAccess list"

definition handleMetadata :: "'i QemuBroker \<Rightarrow> 64 word \<Rightarrow> 'i QemuBroker" where
  "handleMetadata B LoadAddr = B\<lparr>CodeStartAddress := LoadAddr\<rparr>"

text \<open>\<^verbatim>\<open>SmallVector::resize\<close>: new slots are empty \<^verbatim>\<open>Optional\<close>s.\<close>

definition resize :: "'a option list \<Rightarrow> nat \<Rightarrow> 'a option list" where
  "resize xs n = take n xs @ replicate (n - length xs) None"

text \<open>
  \<^verbatim>\<open>addTB\<close>. \<^verbatim>\<open>TB.Index() + 1\<close> is computed in \<^verbatim>\<open>uint32_t\<close>; the write to
  \<^verbatim>\<open>TBs[TB.Index()]\<close> is out of range when that sum wraps to zero.
\<close>

definition addTB :: "'i QemuBroker \<Rightarrow> 32 word \<Rightarrow> RawInstTy list \<Rightarrow> fault + 'i QemuBroker" where
  "addTB B TBIndex Insts =
     (let TBs1 = (if unat TBIndex \<ge> length (TBs B)
                  then resize (TBs B) (unat (TBIndex + 1))
                  else TBs B)
      in if unat TBIndex < length TBs1
         then Inr (B\<lparr>TBs := TBs1[unat TBIndex := Some (NewTB Insts)]\<rparr>)
         else Inl OutOfBounds)"

text \<open>
  The first region loop of \<^verbatim>\<open>tbExec\<close>: from position \<open>i\<close>, look each instruction address
  up; stop at the first hit. The result is the final \<open>i\<close> and \<^verbatim>\<open>CurBinRegion\<close>.
\<close>

fun scan_start ::
  "(64 word \<Rightarrow> BinaryRegion option) \<Rightarrow> 64 word \<Rightarrow> 8 word list \<Rightarrow> nat \<Rightarrow> nat \<times> BinaryRegion option"
  where
  "scan_start lk VA [] i = (i, None)"
| "scan_start lk VA (Offset # Offsets) i =
     (case lk (VA + ucast Offset) of
        Some R \<Rightarrow> (i, Some R)
      | None \<Rightarrow> scan_start lk VA Offsets (i + 1))"

text \<open>The second region loop: stop at the first instruction at the region's end address.\<close>

fun scan_end :: "64 word \<Rightarrow> 64 word \<Rightarrow> 8 word list \<Rightarrow> nat \<Rightarrow> nat" where
  "scan_end EndA VA [] i = i"
| "scan_end EndA VA (Offset # Offsets) i =
     (if EndA = VA + ucast Offset then i else scan_end EndA VA Offsets (i + 1))"

text \<open>
  ``Handle regions'' in \<^verbatim>\<open>tbExec\<close>: the result is \<open>(BeginIdx, EndIdx, Region, CurBinRegion)\<close>.
\<close>

definition handle_regions ::
  "BinaryRegions option \<Rightarrow> BinaryRegion option \<Rightarrow> 64 word \<Rightarrow> 'i TranslationBlock \<Rightarrow>
   16 word \<times> 16 word \<times> BinaryRegion option \<times> BinaryRegion option" where
  "handle_regions Regions Cur CodeStart TB =
     (if (case Regions of None \<Rightarrow> True | Some R \<Rightarrow> regions_size R = 0)
      then (0, - 1, None, Cur)
      else
        let S = length (VAddrOffsets TB);
            (BeginIdx1, i, Cur1) =
              (if Cur = None
               then (if VAddr TB \<ge> CodeStart
                     then (let (i, Cur') = scan_start (lookup_region (the Regions))
                                              (VAddr TB - CodeStart) (VAddrOffsets TB) 0
                           in (if i \<noteq> S then of_nat i else - 1, i, Cur'))
                     else (- 1, 0, None))
               else (0, 0, Cur))
        in (case Cur1 of
              None \<Rightarrow> (BeginIdx1, - 1, None, None)
            | Some CR \<Rightarrow>
                if VAddr TB \<ge> CodeStart
                then (let i' = scan_end (EndAddr CR) (VAddr TB - CodeStart)
                                 (drop i (VAddrOffsets TB)) i
                      in if i' \<noteq> S then (BeginIdx1, of_nat (i' + 1), Some CR, None)
                         else (BeginIdx1, - 1, None, Some CR))
                else (BeginIdx1, - 1, None, Some CR)))"

text \<open>
  The block \<^verbatim>\<open>if (!TB) { TB.VAddr = PC; disassemble(TB); ... }\<close> of \<^verbatim>\<open>tbExec\<close>: the
  current disassembler and the block afterwards.
\<close>

definition translate_block ::
  "'i Target \<Rightarrow> 'i Disassembler option \<Rightarrow> 64 word \<Rightarrow> 'i TranslationBlock \<Rightarrow>
   (fault + 'i Disassembler option \<times> 'i TranslationBlock) option"
  where
  "translate_block T Cur PC TB0 =
     (if MCInsts TB0 = []
      then (case disassemble T Cur (TB0\<lparr>VAddr := PC\<rparr>) of
              None \<Rightarrow> None
            | Some (Inl f) \<Rightarrow> Some (Inl f)
            | Some (Inr (Cur', TB1)) \<Rightarrow>
                Some (Inr (Cur', if isARM T \<or> isThumb T
                                 then TB1\<lparr>VAddr := VAddr TB1 AND NOT 1\<rparr> else TB1)))
      else Some (Inr (Cur, TB0)))"

text \<open>
  The rest of \<^verbatim>\<open>tbExec\<close>, for the translated block \<open>TB\<close> of index \<open>Idx\<close>: regions, the
  empty-slice exit, the memory-access chain and the push. An absent and an empty access
  vector are the same to it.
\<close>

definition queue_slice ::
  "'i QemuBroker \<Rightarrow> nat \<Rightarrow> 'i Disassembler option \<Rightarrow> 'i TranslationBlock \<Rightarrow> FbMemAccess list \<Rightarrow>
   'i QemuBroker"
  where
  "queue_slice B TBIdx Cur TB FbMAs =
     (let (BeginIdx1, EndIdx1, Region1, CurRegion) =
            handle_regions (BinRegions B) (CurBinRegion B) (CodeStartAddress B) TB;
          B1 = B\<lparr>CurDisAsm := Cur, TBs := (TBs B)[TBIdx := Some TB], CurBinRegion := CurRegion\<rparr>
      in if BeginIdx1 = EndIdx1 then B1
         else B1\<lparr>TBQueue := TBQueue B1 @
                    [\<lparr>Index = TBIdx, BeginIdx = BeginIdx1, EndIdx = EndIdx1, Region = Region1,
                      MemoryAccesses =
                        (if FbMAs \<noteq> [] then Some (build_chain (SkewIndicies TB) FbMAs)
                         else None)\<rparr>]\<rparr>)"

text \<open>
  \<^verbatim>\<open>tbExec\<close> for the event \<open>(Idx, PC, FbMAs)\<close>. \<open>None\<close> is a disassembly that never
  returns, \<open>Inl\<close> one that faults.
\<close>

definition tbExec ::
  "'i QemuBroker \<Rightarrow> 32 word \<Rightarrow> 64 word \<Rightarrow> FbMemAccess list \<Rightarrow> (fault + 'i QemuBroker) option"
  where
  "tbExec B Idx PC FbMAs =
     (if Idx = - 1 \<and> PC = - 1 then Some (Inr (B\<lparr>IsEndOfStream := True\<rparr>))
      else if unat Idx \<ge> length (TBs B) \<or> TBs B ! unat Idx = None then Some (Inr B)
      else case translate_block (TheTarget B) (CurDisAsm B) PC (the (TBs B ! unat Idx)) of
             None \<Rightarrow> None
           | Some (Inl f) \<Rightarrow> Some (Inl f)
           | Some (Inr (Cur, TB)) \<Rightarrow> Some (Inr (queue_slice B (unat Idx) Cur TB FbMAs)))"

text \<open>The dispatch of one verified message in \<^verbatim>\<open>recvWorker\<close>.\<close>

definition recvMessage :: "'i QemuBroker \<Rightarrow> Message \<Rightarrow> (fault + 'i QemuBroker) option" where
  "recvMessage B Msg =
     (case Msg of
        Metadata LoadAddr \<Rightarrow> Some (Inr (handleMetadata B LoadAddr))
      | TranslatedBlock TBIndex Insts \<Rightarrow> Some (addTB B TBIndex Insts)
      | ExecTB Idx PC FbMAs \<Rightarrow> tbExec B Idx PC FbMAs)"

section \<open>The fetch engine\<close>

text \<open>
  \<^verbatim>\<open>Broker::RegionDescriptor\<close> (declared in \<^verbatim>\<open>Brokers/Broker.h\<close>): an end-of-region flag
  and a description, empty unless given.
\<close>

record RegionDescriptor =
  IsEnd :: bool
  Text :: string

text \<open>
  The metadata exchanger: \<open>IndexMap\<close> from an instruction (the \<open>i\<close>-th \<^verbatim>\<open>MCInst\<close> owned by
  translation block \<open>TBIdx\<close>) to its sequence number, and the \<^verbatim>\<open>MD_LSUnit_MemAccess\<close>
  category of the registry.
\<close>

type_synonym MCInstRef = "nat \<times> nat"

record MDExchanger =
  IndexMap :: "MCInstRef \<rightharpoonup> 32 word"
  MemAccessCat :: "32 word \<rightharpoonup> MDMemoryAccess"

text \<open>
  \<^verbatim>\<open>TBSlice::size\<close>: the \<^verbatim>\<open>int\<close> difference of the two promoted \<^verbatim>\<open>uint16_t\<close> bounds,
  converted to \<^verbatim>\<open>size_t\<close>.
\<close>

definition slice_size :: "TBSlice \<Rightarrow> nat" where
  "slice_size s =
     (if BeginIdx s \<le> EndIdx s then unat (EndIdx s) - unat (BeginIdx s)
      else 2 ^ 64 - (unat (BeginIdx s) - unat (EndIdx s)))"

text \<open>
  One iteration of the selection loop of \<^verbatim>\<open>fetchRegion\<close>, on a non-empty queue: the new
  \<open>S\<close>, queue and selected slices.
\<close>

definition select_step ::
  "'i TranslationBlock option list \<Rightarrow> int \<Rightarrow> TBSlice list \<Rightarrow> TBSlice list \<Rightarrow>
   fault + int \<times> TBSlice list \<times> TBSlice list" where
  "select_step Cache S Queue SelectedSlices =
     (let CurSlice = hd Queue; TBIdx = Index CurSlice
      in if TBIdx < length Cache \<and> Cache ! TBIdx \<noteq> None
         then (let SliceLen = min (length (MCInsts (the (Cache ! TBIdx)))) (slice_size CurSlice)
               in if int SliceLen > S
                  then (case split CurSlice (BeginIdx CurSlice + word_of_int S) of
                          Inl f \<Rightarrow> Inl f
                        | Inr (TakenSlice, CurSlice') \<Rightarrow>
                            Inr (0, CurSlice' # tl Queue,
                                 SelectedSlices @ [TakenSlice\<lparr>Region := None\<rparr>]))
                  else Inr (S - int SliceLen, tl Queue, SelectedSlices @ [CurSlice]))
         else Inr (S, Queue, SelectedSlices))"

text \<open>
  The selection loop, run under both mutexes. It returns the queue and the selected
  slices; \<open>None\<close> is a loop that never exits.
\<close>

partial_function (option) select_slices ::
  "'i TranslationBlock option list \<Rightarrow> int \<Rightarrow> TBSlice list \<Rightarrow> TBSlice list \<Rightarrow> bool \<Rightarrow>
   (fault + TBSlice list \<times> TBSlice list) option" where
  "select_slices Cache S Queue SelectedSlices EndOfRegion =
     (if S > 0 \<and> Queue \<noteq> [] \<and> \<not> EndOfRegion
      then
        (case select_step Cache S Queue SelectedSlices of
           Inl f \<Rightarrow> Some (Inl f)
         | Inr (S', Queue', SelectedSlices') \<Rightarrow>
             select_slices Cache S' Queue' SelectedSlices'
               (if SelectedSlices' = [] then False
                else Region (last SelectedSlices') \<noteq> None))
      else Some (Inr (Queue, SelectedSlices)))"

declare select_slices.simps [code]

text \<open>\<^verbatim>\<open>setMemoryAccessMD\<close>, for the instruction \<open>MCI\<close> and the counter value \<open>N\<close>.\<close>

definition setMemoryAccessMD ::
  "MDExchanger option \<Rightarrow> MCInstRef \<Rightarrow> 32 word \<Rightarrow> MDMemoryAccess \<Rightarrow> MDExchanger option" where
  "setMemoryAccessMD MDE MCI N MDA =
     (case MDE of
        None \<Rightarrow> None
      | Some E \<Rightarrow> Some (E\<lparr>IndexMap := (IndexMap E)(MCI \<mapsto> N),
                          MemAccessCat := (MemAccessCat E)(N \<mapsto> MDA)\<rparr>))"

text \<open>
  The memory-access step of the delivery loop for the instruction at position \<open>i\<close>, after
  the trace counter became \<open>N\<close>: a front entry with index \<open>i\<close> is published and erased.
\<close>

definition consume_access ::
  "MemoryAccessChain option \<Rightarrow> MDExchanger option \<Rightarrow> nat \<Rightarrow> nat \<Rightarrow> 32 word \<Rightarrow>
   MemoryAccessChain option \<times> MDExchanger option" where
  "consume_access MAs MDE TBIdx i N =
     (case MAs of
        Some (Front # Rest) \<Rightarrow>
          if fst Front = i
          then (Some Rest, setMemoryAccessMD MDE (TBIdx, i) N (snd Front))
          else (MAs, MDE)
      | _ \<Rightarrow> (MAs, MDE))"

text \<open>
  The inner delivery loop over one selected slice. \<open>Out\<close> is what has been written to
  \<^verbatim>\<open>MCIS[0 .. TotalSize - Size)\<close>.
\<close>

function deliver_insts ::
  "'i list \<Rightarrow> nat \<Rightarrow> nat \<Rightarrow> nat \<Rightarrow> int \<Rightarrow> MemoryAccessChain option \<Rightarrow> 'i list \<Rightarrow> 32 word \<Rightarrow>
   MDExchanger option \<Rightarrow> fault + int \<times> 'i list \<times> 32 word \<times> MDExchanger option" where
  "deliver_insts Insts TBIdx End i Size1 MAs Out NumTraces MDE =
     (if i \<noteq> End \<and> Size1 > 0
      then if i \<ge> length Insts then Inl OutOfBounds
           else deliver_insts Insts TBIdx End (i + 1) (Size1 - 1)
                  (fst (consume_access MAs MDE TBIdx i (NumTraces + 1)))
                  (Out @ [Insts ! i]) (NumTraces + 1)
                  (snd (consume_access MAs MDE TBIdx i (NumTraces + 1)))
      else Inr (Size1, Out, NumTraces, MDE))"
  by pat_completeness auto
termination
  by (relation "measure (\<lambda>(Insts, TBIdx, End, i, Size1, MAs, Out, NumTraces, MDE). nat Size1)") auto

declare deliver_insts.simps [simp del]

text \<open>The loop over the selected slices.\<close>

fun deliver_slices ::
  "'i TranslationBlock option list \<Rightarrow> TBSlice list \<Rightarrow> int \<Rightarrow> 'i list \<Rightarrow> 32 word \<Rightarrow>
   MDExchanger option \<Rightarrow> fault + int \<times> 'i list \<times> 32 word \<times> MDExchanger option" where
  "deliver_slices Cache [] Size1 Out NumTraces MDE = Inr (Size1, Out, NumTraces, MDE)"
| "deliver_slices Cache (Slice # Slices) Size1 Out NumTraces MDE =
     (let TBIdx = Index Slice
      in if \<not> (TBIdx < length Cache \<and> Cache ! TBIdx \<noteq> None) then Inl OutOfBounds
         else
           let Insts = MCInsts (the (Cache ! TBIdx));
               End = min (length Insts) (unat (EndIdx Slice))
           in case deliver_insts Insts TBIdx End (unat (BeginIdx Slice)) Size1
                     (MemoryAccesses Slice) Out NumTraces MDE of
                Inl f \<Rightarrow> Inl f
              | Inr (Size2, Out', NumTraces', MDE') \<Rightarrow>
                  deliver_slices Cache Slices Size2 Out' NumTraces' MDE')"

text \<open>
  The outcome of a call: it waits on the condition variable, it faults, or it returns.
  A returning \<^verbatim>\<open>fetchRegion\<close> yields the pair \<open>(Count, Desc)\<close>, the instructions written to
  the output buffer, the exchanger and the broker.
\<close>

datatype 'r outcome = Blocked | Faulted fault | Returned 'r

record 'i FetchResult =
  Count :: int
  Desc :: RegionDescriptor
  Delivered :: "'i list"
  Exchanger :: "MDExchanger option"
  After :: "'i QemuBroker"

text \<open>
  \<^verbatim>\<open>fetchRegion(MCIS, Size, MDE)\<close>; \<open>MCISsize\<close> is \<^verbatim>\<open>MCIS.size()\<close>, which fits \<^verbatim>\<open>int\<close>.
\<close>

definition fetchRegion ::
  "'i QemuBroker \<Rightarrow> nat \<Rightarrow> int \<Rightarrow> MDExchanger option \<Rightarrow> 'i FetchResult outcome option" where
  "fetchRegion B MCISsize Size0 MDE =
     (if Size0 = 0
      then Some (Returned \<lparr>Count = 0, Desc = \<lparr>IsEnd = False, Text = ''''\<rparr>, Delivered = [],
                           Exchanger = MDE, After = B\<rparr>)
      else
        let Size1 = (if Size0 < 0 \<or> Size0 > int MCISsize then int MCISsize else Size0);
            TotalSize = Size1
        in if TBQueue B = []
           then (if IsEndOfStream B
                 then Some (Returned \<lparr>Count = - 1, Desc = \<lparr>IsEnd = True, Text = ''''\<rparr>,
                                      Delivered = [], Exchanger = MDE, After = B\<rparr>)
                 else Some Blocked)
           else
             (case select_slices (TBs B) Size1 (TBQueue B) [] False of
                None \<Rightarrow> None
              | Some (Inl f) \<Rightarrow> Some (Faulted f)
              | Some (Inr (Queue', SelectedSlices)) \<Rightarrow>
                  (case deliver_slices (TBs B) SelectedSlices Size1 [] (TotalNumTraces B) MDE of
                     Inl f \<Rightarrow> Some (Faulted f)
                   | Inr (Size2, Out, NumTraces, MDE') \<Rightarrow>
                       Some (Returned
                         \<lparr>Count = TotalSize - Size2,
                          Desc = (if SelectedSlices \<noteq> [] \<and> Region (last SelectedSlices) \<noteq> None
                                  then \<lparr>IsEnd = True,
                                        Text = Description (the (Region (last SelectedSlices)))\<rparr>
                                  else \<lparr>IsEnd = False, Text = ''''\<rparr>),
                          Delivered = Out, Exchanger = MDE',
                          After = B\<lparr>TBQueue := Queue', TotalNumTraces := NumTraces\<rparr>\<rparr>))))"

text \<open>
  \<^verbatim>\<open>fetch\<close> returns \<^verbatim>\<open>fetchRegion(MCIS, Size, MDE).first\<close>; its result here is the count
  with the output buffer, the exchanger and the broker it leaves.
\<close>

record 'i FetchCount =
  fCount :: int
  fDelivered :: "'i list"
  fExchanger :: "MDExchanger option"
  fAfter :: "'i QemuBroker"

definition fetch ::
  "'i QemuBroker \<Rightarrow> nat \<Rightarrow> int \<Rightarrow> MDExchanger option \<Rightarrow> 'i FetchCount outcome option" where
  "fetch B MCISsize Size0 MDE =
     (case fetchRegion B MCISsize Size0 MDE of
        None \<Rightarrow> None
      | Some Blocked \<Rightarrow> Some Blocked
      | Some (Faulted f) \<Rightarrow> Some (Faulted f)
      | Some (Returned R) \<Rightarrow>
          Some (Returned \<lparr>fCount = fst (Count R, Desc R), fDelivered = Delivered R,
                           fExchanger = Exchanger R, fAfter = After R\<rparr>))"

section \<open>Runs\<close>

text \<open>The message loop of \<^verbatim>\<open>recvWorker\<close> on the verified messages of a connection.\<close>

fun recvWorker :: "'i QemuBroker \<Rightarrow> Message list \<Rightarrow> (fault + 'i QemuBroker) option" where
  "recvWorker B [] = Some (Inr B)"
| "recvWorker B (Msg # Msgs) =
     (case recvMessage B Msg of
        None \<Rightarrow> None
      | Some (Inl f) \<Rightarrow> Some (Inl f)
      | Some (Inr B') \<Rightarrow> recvWorker B' Msgs)"

text \<open>
  The receiver thread and the consumer share the cache, the queue and the flag under the
  two mutexes. The states of the broker are those reached from the constructor's state by
  message handlers and returning fetches, each taken as one step.
\<close>

inductive reachable :: "'i Target \<Rightarrow> BinaryRegions option \<Rightarrow> 'i QemuBroker \<Rightarrow> bool"
  for T :: "'i Target" and Regions :: "BinaryRegions option" where
  reach_init: "reachable T Regions (init_broker T Regions)"
| reach_recv: "reachable T Regions B \<Longrightarrow> recvMessage B Msg = Some (Inr B') \<Longrightarrow>
               reachable T Regions B'"
| reach_fetch: "reachable T Regions B \<Longrightarrow>
                fetchRegion B MCISsize Size0 MDE = Some (Returned R) \<Longrightarrow>
                reachable T Regions (After R)"

text \<open>Every queued slice names a populated slot of the cache.\<close>

definition slice_valid :: "'i TranslationBlock option list \<Rightarrow> TBSlice \<Rightarrow> bool" where
  "slice_valid Cache s \<longleftrightarrow> Index s < length Cache \<and> Cache ! Index s \<noteq> None"

definition queue_valid :: "'i QemuBroker \<Rightarrow> bool" where
  "queue_valid B \<longleftrightarrow> (\<forall>s \<in> set (TBQueue B). slice_valid (TBs B) s)"

text \<open>Offsets and decoded instructions of a cached block run in parallel.\<close>

definition cache_wf :: "'i TranslationBlock option list \<Rightarrow> bool" where
  "cache_wf Cache \<longleftrightarrow>
     (\<forall>TB. Some TB \<in> set Cache \<longrightarrow> length (VAddrOffsets TB) = length (MCInsts TB))"

text \<open>
  The bounds of a slice against the cache at the time \<^verbatim>\<open>tbExec\<close> pushes it: it begins
  below its end and at a decoded instruction of its block (at 0 when the block has none);
  a slice without a region-end marker ends at the open-end marker \<open>0xFFFF\<close>, one with a
  marker ends within the decoded instructions.
\<close>

definition push_bounds :: "'i TranslationBlock option list \<Rightarrow> TBSlice \<Rightarrow> bool" where
  "push_bounds Cache s \<longleftrightarrow>
     Index s < length Cache \<and>
     (case Cache ! Index s of
        None \<Rightarrow> False
      | Some TB \<Rightarrow>
          BeginIdx s < EndIdx s \<and>
          (if MCInsts TB = [] then BeginIdx s = 0
           else unat (BeginIdx s) < length (MCInsts TB)) \<and>
          (if Region s = None then EndIdx s = - 1
           else unat (EndIdx s) \<le> length (MCInsts TB)))"

text \<open>
  A cache whose blocks have at most 65535 decoded instructions (what the 16-bit bounds of
  a slice can hold), and the states reached through such caches only.
\<close>

definition cache_small :: "'i TranslationBlock option list \<Rightarrow> bool" where
  "cache_small Cache \<longleftrightarrow>
     (\<forall>Slot \<in> set Cache. case Slot of None \<Rightarrow> True | Some TB \<Rightarrow> length (MCInsts TB) \<le> 65535)"

inductive reachable_small :: "'i Target \<Rightarrow> BinaryRegions option \<Rightarrow> 'i QemuBroker \<Rightarrow> bool"
  for T :: "'i Target" and Regions :: "BinaryRegions option" where
  small_init: "reachable_small T Regions (init_broker T Regions)"
| small_recv: "reachable_small T Regions B \<Longrightarrow> recvMessage B Msg = Some (Inr B') \<Longrightarrow>
               cache_small (TBs B') \<Longrightarrow> reachable_small T Regions B'"
| small_fetch: "reachable_small T Regions B \<Longrightarrow>
                fetchRegion B MCISsize Size0 MDE = Some (Returned R) \<Longrightarrow>
                reachable_small T Regions (After R)"

text \<open>The broker after a connection's messages (the broker itself when the run breaks off).\<close>

definition state_after :: "'i QemuBroker \<Rightarrow> Message list \<Rightarrow> 'i QemuBroker" where
  "state_after B Msgs = (case recvWorker B Msgs of Some (Inr B') \<Rightarrow> B' | _ \<Rightarrow> B)"

section \<open>Successive fetches\<close>

text \<open>
  \<open>k\<close> successive calls \<^verbatim>\<open>fetch(MCIS, Size, MDE)\<close>: the concatenation of what they wrote
  and the broker they leave; \<open>None\<close> when one of them does not return.
\<close>

fun fetch_repeat ::
  "nat \<Rightarrow> 'i QemuBroker \<Rightarrow> nat \<Rightarrow> int \<Rightarrow> MDExchanger option \<Rightarrow> ('i list \<times> 'i QemuBroker) option"
  where
  "fetch_repeat 0 B MCISsize Size0 MDE = Some ([], B)"
| "fetch_repeat (Suc k) B MCISsize Size0 MDE =
     (case fetch B MCISsize Size0 MDE of
        Some (Returned R) \<Rightarrow>
          (case fetch_repeat k (fAfter R) MCISsize Size0 (fExchanger R) of
             Some (Out, B') \<Rightarrow> Some (fDelivered R @ Out, B')
           | None \<Rightarrow> None)
      | _ \<Rightarrow> None)"

text \<open>What a returning \<^verbatim>\<open>fetch\<close> wrote to the output buffer.\<close>

definition delivered_by :: "'i FetchCount outcome option \<Rightarrow> 'i list option" where
  "delivered_by r = (case r of Some (Returned R) \<Rightarrow> Some (fDelivered R) | _ \<Rightarrow> None)"

text \<open>
  The instructions a slice \<open>[BeginIdx, EndIdx)\<close> stands for, and those of a queue.
\<close>

definition slice_insts :: "'i TranslationBlock option list \<Rightarrow> TBSlice \<Rightarrow> 'i list" where
  "slice_insts Cache s =
     take (unat (EndIdx s) - unat (BeginIdx s))
       (drop (unat (BeginIdx s)) (MCInsts (the (Cache ! Index s))))"

definition queued_insts :: "'i TranslationBlock option list \<Rightarrow> TBSlice list \<Rightarrow> 'i list" where
  "queued_insts Cache Queue = concat (map (slice_insts Cache) Queue)"

text \<open>
  A slice that begins within the decoded instructions of a cached block, and one that
  also ends within them.
\<close>

definition slice_open :: "'i TranslationBlock option list \<Rightarrow> TBSlice \<Rightarrow> bool" where
  "slice_open Cache s \<longleftrightarrow>
     slice_valid Cache s \<and> BeginIdx s < EndIdx s \<and>
     unat (BeginIdx s) \<le> length (MCInsts (the (Cache ! Index s)))"

definition slice_within :: "'i TranslationBlock option list \<Rightarrow> TBSlice \<Rightarrow> bool" where
  "slice_within Cache s \<longleftrightarrow>
     slice_open Cache s \<and> unat (EndIdx s) \<le> length (MCInsts (the (Cache ! Index s)))"

text \<open>
  A queue in which every slice but the last ends within its block and ends no region;
  the last slice may be open-ended and may end a region.
\<close>

definition queue_within :: "'i TranslationBlock option list \<Rightarrow> TBSlice list \<Rightarrow> bool" where
  "queue_within Cache Queue \<longleftrightarrow>
     (\<forall>s \<in> set Queue. slice_open Cache s) \<and>
     (\<forall>s \<in> set (butlast Queue). slice_within Cache s \<and> Region s = None)"

text \<open>
  One region for concrete runs: it starts at address 0 and its last instruction is at
  address 1.
\<close>

definition unit_region :: BinaryRegions where
  "unit_region =
     \<lparr>regions_size = 1,
      lookup_region = (\<lambda>a. if a = 0 then Some \<lparr>Description = ''r'', EndAddr = 1\<rparr> else None)\<rparr>"
section \<open>Properties of the disassembly loops\<close>

lemma decode_loop_props_aux:
  assumes "decode_loop Cur R VA S I N off TB = Some y"
  shows "\<forall>r. y = Inr r \<longrightarrow>
         SkewIndicies (snd r) = SkewIndicies TB \<and> RawInsts (snd r) = RawInsts TB \<and>
         VAddr (snd r) = VAddr TB \<and>
         (\<exists>new. MCInsts (snd r) = MCInsts TB @ new \<and>
                length (VAddrOffsets (snd r)) = length (VAddrOffsets TB) + length new \<and>
                fst r + (N - 1) = off + (N + length new - 1))"
proof (rule decode_loop.raw_induct
    [where P = "\<lambda>Cur R VA S I N off TB y. \<forall>r. y = Inr r \<longrightarrow>
        SkewIndicies (snd r) = SkewIndicies TB \<and> RawInsts (snd r) = RawInsts TB \<and>
        VAddr (snd r) = VAddr TB \<and>
        (\<exists>new. MCInsts (snd r) = MCInsts TB @ new \<and>
               length (VAddrOffsets (snd r)) = length (VAddrOffsets TB) + length new \<and>
               fst r + (N - 1) = off + (N + length new - 1))", OF _ assms], goal_cases)
  case (1 loop Cur R VA S I N off TB y)
  show ?case
  proof (intro allI impI)
    fix r assume y: "y = Inr r"
    show "SkewIndicies (snd r) = SkewIndicies TB \<and> RawInsts (snd r) = RawInsts TB \<and>
        VAddr (snd r) = VAddr TB \<and>
        (\<exists>new. MCInsts (snd r) = MCInsts TB @ new \<and>
               length (VAddrOffsets (snd r)) = length (VAddrOffsets TB) + length new \<and>
               fst r + (N - 1) = off + (N + length new - 1))"
    proof (cases "unat I < length R")
      case False
      with 1(2) y show ?thesis by auto
    next
      case True
      show ?thesis
      proof (cases Cur)
        case None
        with True 1(2) y show ?thesis by auto
      next
        case (Some d)
        show ?thesis
        proof (cases "d (drop (unat I) R) (VA + I)")
          case None
          with True Some 1(2) y show ?thesis by auto
        next
          case dec: (Some p)
          obtain MCI sz where p: "p = (MCI, sz)" by (cases p)
          let ?TB1 = "TB\<lparr>MCInsts := MCInsts TB @ [MCI],
                          VAddrOffsets := VAddrOffsets TB @ [ucast (VA + I - S)]\<rparr>"
          let ?off1 = "if N + 1 > 1 then off + 1 else off"
          from True Some dec p 1(2)
          have rec: "loop Cur R VA S (next_Index I sz) (N + 1) ?off1 ?TB1 = Some y"
            by simp
          from 1(1) [OF rec] y obtain new where
            a: "SkewIndicies (snd r) = SkewIndicies ?TB1" "RawInsts (snd r) = RawInsts ?TB1"
               "VAddr (snd r) = VAddr ?TB1"
            and b: "MCInsts (snd r) = MCInsts ?TB1 @ new"
                   "length (VAddrOffsets (snd r)) = length (VAddrOffsets ?TB1) + length new"
                   "fst r + (N + 1 - 1) = ?off1 + (N + 1 + length new - 1)"
            by blast
          have "MCInsts (snd r) = MCInsts TB @ (MCI # new)" using b(1) by simp
          moreover have "length (VAddrOffsets (snd r))
                           = length (VAddrOffsets TB) + length (MCI # new)"
            using b(2) by simp
          moreover have "fst r + (N - 1) = off + (N + length (MCI # new) - 1)"
            using b(3) by (cases N) auto
          ultimately show ?thesis using a by (intro conjI exI[of _ "MCI # new"]) simp_all
        qed
      qed
    qed
  qed
qed

lemma decode_loop_props:
  assumes "decode_loop Cur R VA S I N off TB = Some (Inr (off', TB'))"
  shows "SkewIndicies TB' = SkewIndicies TB \<and> RawInsts TB' = RawInsts TB \<and> VAddr TB' = VAddr TB \<and>
         (\<exists>new. MCInsts TB' = MCInsts TB @ new \<and>
                length (VAddrOffsets TB') = length (VAddrOffsets TB) + length new \<and>
                off' + (N - 1) = off + (N + length new - 1))"
  using decode_loop_props_aux [OF assms] by simp

text \<open>A fault of the decode loop is the call through a null disassembler.\<close>

lemma decode_loop_fault_aux:
  assumes "decode_loop Cur R VA S I N off TB = Some y"
  shows "\<forall>f. y = Inl f \<longrightarrow> Cur = None \<and> f = NullPointer"
proof (rule decode_loop.raw_induct
    [where P = "\<lambda>Cur R VA S I N off TB y. \<forall>f. y = Inl f \<longrightarrow> Cur = None \<and> f = NullPointer",
      OF _ assms], goal_cases)
  case (1 loop Cur R VA S I N off TB y)
  show ?case
  proof (intro allI impI)
    fix f assume y: "y = Inl f"
    show "Cur = None \<and> f = NullPointer"
    proof (cases "unat I < length R")
      case False
      with 1(2) y show ?thesis by auto
    next
      case True
      show ?thesis
      proof (cases Cur)
        case None
        with True 1(2) y show ?thesis by auto
      next
        case (Some d)
        show ?thesis
        proof (cases "d (drop (unat I) R) (VA + I)")
          case None
          with True Some 1(2) y show ?thesis by auto
        next
          case dec: (Some p)
          obtain MCI sz where p: "p = (MCI, sz)" by (cases p)
          from True Some dec p 1(2)
          have "loop Cur R VA S (next_Index I sz) (N + 1) (if N + 1 > 1 then off + 1 else off)
                  (TB\<lparr>MCInsts := MCInsts TB @ [MCI],
                      VAddrOffsets := VAddrOffsets TB @ [ucast (VA + I - S)]\<rparr>) = Some y"
            by simp
          from 1(1) [OF this] y show ?thesis by blast
        qed
      qed
    qed
  qed
qed

lemma decode_loop_fault:
  "decode_loop Cur R VA S I N off TB = Some (Inl f) \<Longrightarrow> Cur = None \<and> f = NullPointer"
  using decode_loop_fault_aux by blast

lemma decode_loop_null:
  "decode_loop None R VA S I N off TB =
     (if unat I < length R then Some (Inl NullPointer) else Some (Inr (off, TB)))"
  by (subst decode_loop.simps) simp

lemma decode_loop_progress:
  assumes "decode_loop (Some d) R VA S 0 N off TB = Some (Inr (off', TB'))"
    and "R \<noteq> []" and "d R VA \<noteq> None"
  shows "length (MCInsts TB) < length (MCInsts TB')"
proof -
  from assms(3) obtain MCI sz where d: "d (drop (unat (0::64 word)) R) (VA + 0) = Some (MCI, sz)"
    by (cases "d R VA") auto
  from assms(1) assms(2) d have
    "decode_loop (Some d) R VA S (next_Index 0 sz) (N + 1) (if N + 1 > 1 then off + 1 else off)
       (TB\<lparr>MCInsts := MCInsts TB @ [MCI], VAddrOffsets := VAddrOffsets TB @ [ucast (VA + 0 - S)]\<rparr>)
     = Some (Inr (off', TB'))"
    by (subst (asm) decode_loop.simps) simp
  from decode_loop_props [OF this] show ?thesis by auto
qed

lemma disassemble_insts_Cons:
  assumes "disassemble_insts Cur S (R # Rest) VA k off TB = Some (Inr TB')"
  obtains off1 TB2 where
    "decode_loop Cur R VA S 0 0 off
       (if off > 0 then TB\<lparr>SkewIndicies := (SkewIndicies TB)(k \<mapsto> k + off)\<rparr> else TB)
     = Some (Inr (off1, TB2))"
    "disassemble_insts Cur S Rest (VA + of_nat (length R)) (k + 1) off1 TB2 = Some (Inr TB')"
  using assms by (auto split: option.splits sum.splits)

lemma disassemble_insts_skew:
  assumes "disassemble_insts Cur S Rs VA k off TB = Some (Inr TB')"
    and "SkewIndicies TB' j = Some v"
  shows "SkewIndicies TB j = Some v \<or> (k \<le> j \<and> j < k + length Rs \<and> j < v)"
  using assms
proof (induction Rs arbitrary: VA k off TB)
  case Nil
  then show ?case by simp
next
  case (Cons R Rest)
  let ?TB1 = "if off > 0 then TB\<lparr>SkewIndicies := (SkewIndicies TB)(k \<mapsto> k + off)\<rparr> else TB"
  from Cons.prems(1) obtain off1 TB2 where
    dl: "decode_loop Cur R VA S 0 0 off ?TB1 = Some (Inr (off1, TB2))"
    and rest: "disassemble_insts Cur S Rest (VA + of_nat (length R)) (k + 1) off1 TB2
                 = Some (Inr TB')"
    by (rule disassemble_insts_Cons)
  from decode_loop_props [OF dl] have sk: "SkewIndicies TB2 = SkewIndicies ?TB1" by simp
  from Cons.IH [OF rest Cons.prems(2)]
  consider "SkewIndicies TB2 j = Some v" | "k + 1 \<le> j \<and> j < k + 1 + length Rest \<and> j < v"
    by blast
  then show ?case
  proof cases
    case 1
    with sk show ?thesis by (auto split: if_splits)
  next
    case 2
    then show ?thesis by simp
  qed
qed

lemma disassemble_insts_fields:
  assumes "disassemble_insts Cur S Rs VA k off TB = Some (Inr TB')"
  shows "RawInsts TB' = RawInsts TB \<and> VAddr TB' = VAddr TB \<and>
         length (MCInsts TB) \<le> length (MCInsts TB') \<and>
         (length (VAddrOffsets TB) = length (MCInsts TB) \<longrightarrow>
          length (VAddrOffsets TB') = length (MCInsts TB'))"
  using assms
proof (induction Rs arbitrary: VA k off TB)
  case Nil
  then show ?case by simp
next
  case (Cons R Rest)
  let ?TB1 = "if off > 0 then TB\<lparr>SkewIndicies := (SkewIndicies TB)(k \<mapsto> k + off)\<rparr> else TB"
  from Cons.prems(1) obtain off1 TB2 where
    dl: "decode_loop Cur R VA S 0 0 off ?TB1 = Some (Inr (off1, TB2))"
    and rest: "disassemble_insts Cur S Rest (VA + of_nat (length R)) (k + 1) off1 TB2
                 = Some (Inr TB')"
    by (rule disassemble_insts_Cons)
  from decode_loop_props [OF dl] Cons.IH [OF rest] show ?case by auto
qed

lemma disassemble_insts_count:
  assumes "disassemble_insts Cur S Rs VA k off TB = Some (Inr TB')"
    and "first_decodes Cur Rs VA"
  shows "\<exists>off'. off \<le> off' \<and>
           length (MCInsts TB') = length (MCInsts TB) + length Rs + (off' - off) \<and>
           (\<forall>j v. SkewIndicies TB' j = Some v \<longrightarrow> SkewIndicies TB j = Some v \<or> 0 < off')"
  using assms
proof (induction Rs arbitrary: VA k off TB)
  case Nil
  then show ?case by auto
next
  case (Cons R Rest)
  let ?TB1 = "if off > 0 then TB\<lparr>SkewIndicies := (SkewIndicies TB)(k \<mapsto> k + off)\<rparr> else TB"
  from Cons.prems(1) obtain off1 TB2 where
    dl: "decode_loop Cur R VA S 0 0 off ?TB1 = Some (Inr (off1, TB2))"
    and rest: "disassemble_insts Cur S Rest (VA + of_nat (length R)) (k + 1) off1 TB2
                 = Some (Inr TB')"
    by (rule disassemble_insts_Cons)
  from Cons.prems(2) obtain d where R: "R \<noteq> []" and Cur: "Cur = Some d" and d: "d R VA \<noteq> None"
    and Rest: "first_decodes Cur Rest (VA + of_nat (length R))"
    by (auto split: option.splits)
  from decode_loop_props [OF dl] obtain new where
    sk: "SkewIndicies TB2 = SkewIndicies ?TB1"
    and mc: "MCInsts TB2 = MCInsts ?TB1 @ new"
    and of1: "off1 + (0 - 1) = off + (0 + length new - 1)"
    by blast
  from decode_loop_progress [OF dl [unfolded Cur] R d] mc have ne: "new \<noteq> []" by auto
  from Cons.IH [OF rest Rest] obtain off' where
    le: "off1 \<le> off'"
    and len: "length (MCInsts TB') = length (MCInsts TB2) + length Rest + (off' - off1)"
    and dom: "\<forall>j v. SkewIndicies TB' j = Some v \<longrightarrow> SkewIndicies TB2 j = Some v \<or> 0 < off'"
    by blast
  from ne of1 have o1: "off1 = off + length new - 1" "length new \<ge> 1"
    by (auto simp: Suc_le_eq)
  have "off \<le> off'" using o1 le by linarith
  moreover have "length (MCInsts TB') = length (MCInsts TB) + length (R # Rest) + (off' - off)"
    using len mc o1 le by auto
  moreover have "\<forall>j v. SkewIndicies TB' j = Some v \<longrightarrow> SkewIndicies TB j = Some v \<or> 0 < off'"
  proof (intro allI impI)
    fix j v assume "SkewIndicies TB' j = Some v"
    with dom have "SkewIndicies TB2 j = Some v \<or> 0 < off'" by blast
    then show "SkewIndicies TB j = Some v \<or> 0 < off'"
      using sk \<open>off \<le> off'\<close> by (auto split: if_splits)
  qed
  ultimately show ?case by blast
qed

lemma next_Index_advances:
  assumes "unat I < n" and "n < 2 ^ 64" and "unat sz \<le> n - unat I"
  shows "unat I < unat (next_Index I sz) \<and> unat (next_Index I sz) \<le> n"
proof -
  let ?sz = "if sz = 0 then 1 else sz"
  have pos: "1 \<le> unat ?sz" by (auto simp: unat_gt_0 Suc_le_eq)
  have le: "unat ?sz \<le> n - unat I" using assms(1,3) by auto
  then have "unat I + unat ?sz < 2 ^ 64" using assms(1,2) by linarith
  then have "unat (I + ?sz) = unat I + unat ?sz"
    using unat_add_lem [of I ?sz] by simp
  with pos le assms(1) show ?thesis unfolding next_Index_def by linarith
qed


lemma decode_loop_terminates:
  assumes contract: "\<forall>d bytes a m sz. Cur = Some d \<longrightarrow> d bytes a = Some (m, sz) \<longrightarrow>
                       unat sz \<le> length bytes"
    and len: "length R < 2 ^ 64"
  shows "\<exists>r. decode_loop Cur R VA S I N off TB = Some r"
proof (cases Cur)
  case None
  then show ?thesis by (simp add: decode_loop_null)
next
  case (Some d)
  from contract Some have c: "\<forall>bytes a m sz. d bytes a = Some (m, sz) \<longrightarrow> unat sz \<le> length bytes"
    by blast
  have "\<exists>r. decode_loop (Some d) R VA S I N off TB = Some r"
  proof (induction "length R - unat I" arbitrary: I N off TB rule: less_induct)
    case less
    show ?case
    proof (cases "unat I < length R")
      case False
      then show ?thesis by (subst decode_loop.simps) simp
    next
      case True
      show ?thesis
      proof (cases "d (drop (unat I) R) (VA + I)")
        case None
        with True show ?thesis by (subst decode_loop.simps) simp
      next
        case dec: (Some p)
        obtain m sz where p: "p = (m, sz)" by (cases p)
        from c dec p
        have "unat sz \<le> length (drop (unat I) R)" by blast
        then have "unat sz \<le> length R - unat I" by simp
        from next_Index_advances [OF True len this]
        have "length R - unat (next_Index I sz) < length R - unat I" by linarith
        from less [OF this] obtain r where
          "decode_loop (Some d) R VA S (next_Index I sz) (N + 1)
             (if N + 1 > 1 then off + 1 else off)
             (TB\<lparr>MCInsts := MCInsts TB @ [m],
                 VAddrOffsets := VAddrOffsets TB @ [ucast (VA + I - S)]\<rparr>) = Some r"
          by blast
        with True dec p show ?thesis by (subst decode_loop.simps) simp
      qed
    qed
  qed
  with Some show ?thesis by simp
qed

lemma disassemble_insts_terminates:
  assumes contract: "\<forall>d bytes a m sz. Cur = Some d \<longrightarrow> d bytes a = Some (m, sz) \<longrightarrow>
                       unat sz \<le> length bytes"
    and "\<forall>R \<in> set Rs. length R < 2 ^ 64"
  shows "\<exists>r. disassemble_insts Cur S Rs VA k off TB = Some r"
  using assms(2)
proof (induction Rs arbitrary: VA k off TB)
  case Nil
  show ?case by simp
next
  case (Cons R Rest)
  let ?TB1 = "if off > 0 then TB\<lparr>SkewIndicies := (SkewIndicies TB)(k \<mapsto> k + off)\<rparr> else TB"
  from Cons.prems have "length R < 2 ^ 64" and rest: "\<forall>R \<in> set Rest. length R < 2 ^ 64"
    by simp_all
  from decode_loop_terminates [OF contract this(1)] obtain r where
    dl: "decode_loop Cur R VA S 0 0 off ?TB1 = Some r"
    by blast
  show ?case
  proof (cases r)
    case (Inl f)
    with dl show ?thesis by simp
  next
    case (Inr x)
    obtain off1 TB2 where x: "x = (off1, TB2)" by (cases x)
    from Cons.IH [OF rest] obtain r' where
      "disassemble_insts Cur S Rest (VA + of_nat (length R)) (k + 1) off1 TB2 = Some r'"
      by blast
    with dl Inr x show ?thesis by simp
  qed
qed

lemma disassemble_insts_fault:
  "disassemble_insts Cur S Rs VA k off TB = Some (Inl f) \<Longrightarrow> Cur = None \<and> f = NullPointer"
proof (induction Rs arbitrary: VA k off TB)
  case Nil
  then show ?case by simp
next
  case (Cons R Rest)
  let ?TB1 = "if off > 0 then TB\<lparr>SkewIndicies := (SkewIndicies TB)(k \<mapsto> k + off)\<rparr> else TB"
  show ?case
  proof (cases "decode_loop Cur R VA S 0 0 off ?TB1")
    case None
    with Cons.prems show ?thesis by simp
  next
    case (Some r)
    show ?thesis
    proof (cases r)
      case (Inl g)
      with Some Cons.prems have "g = f" by simp
      with Some Inl decode_loop_fault [of Cur R VA S 0 0 off ?TB1 f] show ?thesis by simp
    next
      case (Inr x)
      obtain off1 TB2 where x: "x = (off1, TB2)" by (cases x)
      from Some Inr x Cons.prems have
        "disassemble_insts Cur S Rest (VA + of_nat (length R)) (k + 1) off1 TB2 = Some (Inl f)"
        by simp
      from Cons.IH [OF this] show ?thesis .
    qed
  qed
qed

text \<open>
  With a null disassembler the call faults at the first raw instruction that has a byte,
  and returns the block as it is when there is none.
\<close>

lemma disassemble_insts_null:
  "disassemble_insts None S Rs VA k 0 TB =
     (if \<forall>R \<in> set Rs. R = [] then Some (Inr TB) else Some (Inl NullPointer))"
proof (induction Rs arbitrary: VA k)
  case Nil
  show ?case by simp
next
  case (Cons R Rest)
  then show ?case by (cases "R = []") (simp_all add: decode_loop_null)
qed

lemma byte_decoder_total: "Bytes \<noteq> [] \<Longrightarrow> byte_decoder [] Bytes A \<noteq> None"
  by (cases Bytes) (auto simp: byte_decoder_def)

lemma byte_decoder_contract:
  "byte_decoder Bad Bytes Address = Some (MCI, DisAsmSize) \<Longrightarrow> unat DisAsmSize \<le> length Bytes"
  by (cases Bytes) (auto simp: byte_decoder_def split: if_splits)

section \<open>Properties of the selection loop and of the message handlers\<close>

lemma split_fields:
  assumes "split q p = Inr (t, c)"
  shows "Index c = Index q \<and> EndIdx c = EndIdx q \<and> Region c = Region q \<and> BeginIdx c = p \<and>
         Index t = Index q \<and> BeginIdx t = BeginIdx q \<and> EndIdx t = p \<and> Region t = Region q \<and>
         BeginIdx q < p \<and> p < EndIdx q"
  using assms by (auto simp: split_def Let_def split: if_splits option.splits prod.splits)

lemma select_step_cases:
  assumes "select_step Cache S (q # Q0) Sel = Inr (S', Q', Sel')"
  obtains (stuck) "\<not> slice_valid Cache q" "S' = S" "Q' = q # Q0" "Sel' = Sel"
  | (pop) "slice_valid Cache q"
      "\<not> int (min (length (MCInsts (the (Cache ! Index q)))) (slice_size q)) > S"
      "S' = S - int (min (length (MCInsts (the (Cache ! Index q)))) (slice_size q))"
      "Q' = Q0" "Sel' = Sel @ [q]"
  | (cut) t c where "slice_valid Cache q"
      "int (min (length (MCInsts (the (Cache ! Index q)))) (slice_size q)) > S"
      "split q (BeginIdx q + word_of_int S) = Inr (t, c)"
      "S' = 0" "Q' = c # Q0" "Sel' = Sel @ [t\<lparr>Region := None\<rparr>]"
  using assms
  by (auto simp: select_step_def slice_valid_def Let_def split: if_splits sum.splits prod.splits)

lemma select_slices_preserves:
  assumes run: "select_slices Cache S Q Sel E = Some (Inr r)"
    and Q: "\<forall>q \<in> set Q. P q"
    and sp: "\<And>q p t c. P q \<Longrightarrow> split q p = Inr (t, c) \<Longrightarrow> P c"
  shows "\<forall>q \<in> set (fst r). P q"
proof -
  have "(\<forall>q \<in> set Q. P q) \<longrightarrow> (\<forall>r'. y = Inr r' \<longrightarrow> (\<forall>q \<in> set (fst r'). P q))"
    if "select_slices Cache S Q Sel E = Some y" for y
    using that
  proof (rule select_slices.raw_induct
      [where P = "\<lambda>Cache S Q Sel E y.
         (\<forall>q \<in> set Q. P q) \<longrightarrow> (\<forall>r'. y = Inr r' \<longrightarrow> (\<forall>q \<in> set (fst r'). P q))", rotated],
      goal_cases)
    case (1 loop Cache S Q Sel E y)
    show ?case
    proof (intro impI allI)
      fix r' assume PQ: "\<forall>q \<in> set Q. P q" and y: "y = Inr r'"
      show "\<forall>q \<in> set (fst r'). P q"
      proof (cases "S > 0 \<and> Q \<noteq> [] \<and> \<not> E")
        case False
        with 1(2) y PQ show ?thesis by auto
      next
        case True
        then obtain q Q0 where Qc: "Q = q # Q0" by (cases Q) auto
        from 1(2) True y obtain S' Q' Sel' where
          st: "select_step Cache S Q Sel = Inr (S', Q', Sel')"
          and rec: "loop Cache S' Q' Sel'
                      (if Sel' = [] then False else Region (last Sel') \<noteq> None) = Some y"
          by (auto split: sum.splits)
        from st [unfolded Qc] have "\<forall>q \<in> set Q'. P q"
        proof (cases rule: select_step_cases)
          case stuck
          with PQ Qc show ?thesis by simp
        next
          case pop
          with PQ Qc show ?thesis by simp
        next
          case (cut t c)
          with PQ Qc sp [of q _ t c] show ?thesis by simp
        qed
        with 1(1) [OF rec] y show ?thesis by blast
      qed
    qed
  qed
  with run Q show ?thesis by blast
qed



lemma addTB_props:
  assumes "addTB B TBIndex Insts = Inr B'"
  shows "TBQueue B' = TBQueue B \<and> IsEndOfStream B' = IsEndOfStream B \<and>
         TheTarget B' = TheTarget B \<and> BinRegions B' = BinRegions B \<and>
         length (TBs B) \<le> length (TBs B') \<and>
         (\<forall>j < length (TBs B). TBs B ! j \<noteq> None \<longrightarrow> TBs B' ! j \<noteq> None) \<and>
         (cache_wf (TBs B) \<longrightarrow> cache_wf (TBs B'))"
proof -
  define TBs1 where "TBs1 = (if unat TBIndex \<ge> length (TBs B)
                  then resize (TBs B) (unat (TBIndex + 1)) else TBs B)"
  from assms have lt: "unat TBIndex < length TBs1"
    and B': "B' = B\<lparr>TBs := TBs1[unat TBIndex := Some (NewTB Insts)]\<rparr>"
    by (auto simp: addTB_def Let_def TBs1_def split: if_splits)
  have ext: "\<exists>k. TBs1 = TBs B @ replicate k None"
  proof (cases "unat TBIndex \<ge> length (TBs B)")
    case True
    with lt have "length (TBs B) < unat (TBIndex + 1)" by (simp add: TBs1_def resize_def)
    with True show ?thesis by (auto simp: TBs1_def resize_def)
  next
    case False
    then show ?thesis by (auto simp: TBs1_def intro: exI [of _ 0])
  qed
  then obtain k where k: "TBs1 = TBs B @ replicate k None" by blast
  have wf: "cache_wf (TBs B')" if w: "cache_wf (TBs B)"
    unfolding cache_wf_def
  proof (intro allI impI)
    fix TB assume "Some TB \<in> set (TBs B')"
    then have "Some TB \<in> insert (Some (NewTB Insts)) (set TBs1)"
      using set_update_subset_insert [of TBs1 "unat TBIndex" "Some (NewTB Insts)"]
      by (auto simp: B')
    then have "TB = NewTB Insts \<or> Some TB \<in> set (TBs B)" using k by auto
    then show "length (VAddrOffsets TB) = length (MCInsts TB)"
      using w by (auto simp: cache_wf_def NewTB_def)
  qed
  have keep: "\<forall>j < length (TBs B). TBs B ! j \<noteq> None \<longrightarrow> TBs B' ! j \<noteq> None"
    using k lt by (auto simp: B' nth_list_update nth_append)
  show ?thesis using k keep wf by (simp add: B')
qed

lemma disassemble_wf:
  assumes "disassemble T Cur TB = Some (Inr (Cur', TB'))"
    and "length (VAddrOffsets TB) = length (MCInsts TB)"
  shows "length (VAddrOffsets TB') = length (MCInsts TB') \<and> RawInsts TB' = RawInsts TB"
proof (cases "MCInsts TB = []")
  case False
  with assms show ?thesis by (simp add: disassemble_def)
next
  case True
  with assms(1) obtain dis S where
    "disassemble_insts dis S (RawInsts TB) S 0 0 TB = Some (Inr TB')"
    by (auto simp: disassemble_def Let_def split: option.splits sum.splits)
  from disassemble_insts_fields [OF this] assms(2) show ?thesis by simp
qed

lemma translate_block_wf:
  assumes "translate_block T Cur PC TB0 = Some (Inr (Cur', TB))"
    and "length (VAddrOffsets TB0) = length (MCInsts TB0)"
  shows "length (VAddrOffsets TB) = length (MCInsts TB)"
proof (cases "MCInsts TB0 = []")
  case False
  with assms show ?thesis by (simp add: translate_block_def)
next
  case True
  with assms(1) obtain TB1 where
    dd: "disassemble T Cur (TB0\<lparr>VAddr := PC\<rparr>) = Some (Inr (Cur', TB1))"
    and TB: "TB = (if isARM T \<or> isThumb T then TB1\<lparr>VAddr := VAddr TB1 AND NOT 1\<rparr> else TB1)"
    by (auto simp: translate_block_def split: option.splits sum.splits)
  from disassemble_wf [OF dd] assms(2) TB show ?thesis by auto
qed

lemma tbExec_cases:
  assumes "tbExec B Idx PC FbMAs = Some (Inr B')"
  obtains (eos) "Idx = - 1" "PC = - 1" "B' = B\<lparr>IsEndOfStream := True\<rparr>"
  | (drop) "\<not> (Idx = - 1 \<and> PC = - 1)" "unat Idx \<ge> length (TBs B) \<or> TBs B ! unat Idx = None" "B' = B"
  | (exec) TB0 Cur TB where
      "\<not> (Idx = - 1 \<and> PC = - 1)"
      "unat Idx < length (TBs B)" "TBs B ! unat Idx = Some TB0"
      "translate_block (TheTarget B) (CurDisAsm B) PC TB0 = Some (Inr (Cur, TB))"
      "B' = queue_slice B (unat Idx) Cur TB FbMAs"
proof (cases "Idx = - 1 \<and> PC = - 1")
  case True
  from assms True have "B' = B\<lparr>IsEndOfStream := True\<rparr>"
    unfolding tbExec_def by simp
  with True eos show ?thesis by blast
next
  case ns: False
  show ?thesis
  proof (cases "unat Idx \<ge> length (TBs B) \<or> TBs B ! unat Idx = None")
    case True
    from assms ns True have "B' = B" unfolding tbExec_def by simp
    with ns True drop show ?thesis by blast
  next
    case False
    then obtain TB0 where lt: "unat Idx < length (TBs B)" and TB0: "TBs B ! unat Idx = Some TB0"
      by auto
    from assms ns False TB0
    have "(case translate_block (TheTarget B) (CurDisAsm B) PC TB0 of
             None \<Rightarrow> None
           | Some (Inl f) \<Rightarrow> Some (Inl f)
           | Some (Inr (Cur, TB)) \<Rightarrow> Some (Inr (queue_slice B (unat Idx) Cur TB FbMAs)))
          = Some (Inr B')"
      unfolding tbExec_def by simp
    then obtain Cur TB where
      "translate_block (TheTarget B) (CurDisAsm B) PC TB0 = Some (Inr (Cur, TB))"
      "B' = queue_slice B (unat Idx) Cur TB FbMAs"
      by (auto split: option.splits sum.splits)
    with exec ns lt TB0 show ?thesis by blast
  qed
qed

lemma queue_slice_cases:
  obtains (empty) b e r c where
      "handle_regions (BinRegions B) (CurBinRegion B) (CodeStartAddress B) TB = (b, e, r, c)"
      "b = e"
      "queue_slice B TBIdx Cur TB FbMAs =
         B\<lparr>CurDisAsm := Cur, TBs := (TBs B)[TBIdx := Some TB], CurBinRegion := c\<rparr>"
  | (push) b e r c where
      "handle_regions (BinRegions B) (CurBinRegion B) (CodeStartAddress B) TB = (b, e, r, c)"
      "b \<noteq> e"
      "queue_slice B TBIdx Cur TB FbMAs =
         B\<lparr>CurDisAsm := Cur, TBs := (TBs B)[TBIdx := Some TB], CurBinRegion := c,
           TBQueue := TBQueue B @
             [\<lparr>Index = TBIdx, BeginIdx = b, EndIdx = e, Region = r,
               MemoryAccesses = (if FbMAs \<noteq> [] then Some (build_chain (SkewIndicies TB) FbMAs)
                                 else None)\<rparr>]\<rparr>"
proof -
  obtain b e r c where
    h: "handle_regions (BinRegions B) (CurBinRegion B) (CodeStartAddress B) TB = (b, e, r, c)"
    using prod_cases4 by blast
  show thesis
  proof (cases "b = e")
    case True
    with h empty show ?thesis by (simp add: queue_slice_def)
  next
    case False
    with h push show ?thesis by (simp add: queue_slice_def)
  qed
qed

section \<open>Invariants of the reachable states\<close>

lemma fetchRegion_cases:
  assumes "fetchRegion B MCISsize Size0 MDE = Some (Returned R)"
  obtains (same) "After R = B" "Delivered R = []" "Exchanger R = MDE"
  | (sel) Size1 Q' Sel Size2 NT where
      "TBQueue B \<noteq> []"
      "Size1 = (if Size0 < 0 \<or> Size0 > int MCISsize then int MCISsize else Size0)"
      "select_slices (TBs B) Size1 (TBQueue B) [] False = Some (Inr (Q', Sel))"
      "deliver_slices (TBs B) Sel Size1 [] (TotalNumTraces B) MDE
         = Inr (Size2, Delivered R, NT, Exchanger R)"
      "After R = B\<lparr>TBQueue := Q', TotalNumTraces := NT\<rparr>"
      "Count R = Size1 - Size2"
proof (cases "Size0 = 0 \<or> TBQueue B = []")
  case True
  with assms same show ?thesis
    by (auto simp: fetchRegion_def Let_def split: if_splits)
next
  case False
  define Size1 where "Size1 = (if Size0 < 0 \<or> Size0 > int MCISsize then int MCISsize else Size0)"
  from assms False have
    "(case select_slices (TBs B) Size1 (TBQueue B) [] False of
                None \<Rightarrow> None
              | Some (Inl f) \<Rightarrow> Some (Faulted f)
              | Some (Inr (Queue', SelectedSlices)) \<Rightarrow>
                  (case deliver_slices (TBs B) SelectedSlices Size1 [] (TotalNumTraces B) MDE of
                     Inl f \<Rightarrow> Some (Faulted f)
                   | Inr (Size2, Out, NumTraces, MDE') \<Rightarrow>
                       Some (Returned
                         \<lparr>Count = Size1 - Size2,
                          Desc = (if SelectedSlices \<noteq> [] \<and> Region (last SelectedSlices) \<noteq> None
                                  then \<lparr>IsEnd = True,
                                        Text = Description (the (Region (last SelectedSlices)))\<rparr>
                                  else \<lparr>IsEnd = False, Text = ''''\<rparr>),
                          Delivered = Out, Exchanger = MDE',
                          After = B\<lparr>TBQueue := Queue', TotalNumTraces := NumTraces\<rparr>\<rparr>))) = Some (Returned R)"
    unfolding fetchRegion_def Let_def Size1_def by simp
  then obtain Q' Sel Size2 Out NT MDE' where
    s: "select_slices (TBs B) Size1 (TBQueue B) [] False = Some (Inr (Q', Sel))"
    and d: "deliver_slices (TBs B) Sel Size1 [] (TotalNumTraces B) MDE = Inr (Size2, Out, NT, MDE')"
    and R: "R = \<lparr>Count = Size1 - Size2,
                          Desc = (if Sel \<noteq> [] \<and> Region (last Sel) \<noteq> None
                                  then \<lparr>IsEnd = True,
                                        Text = Description (the (Region (last Sel)))\<rparr>
                                  else \<lparr>IsEnd = False, Text = ''''\<rparr>),
                          Delivered = Out, Exchanger = MDE',
                          After = B\<lparr>TBQueue := Q', TotalNumTraces := NT\<rparr>\<rparr>"
    by (auto split: option.splits sum.splits prod.splits)
  from sel [of Size1 Q' Sel Size2 NT] False s d R Size1_def show ?thesis by simp
qed

lemma recvMessage_cases:
  assumes "recvMessage B Msg = Some (Inr B')"
  obtains (meta) LoadAddr where "Msg = Metadata LoadAddr" "B' = handleMetadata B LoadAddr"
  | (tb) TBIndex Insts where "Msg = TranslatedBlock TBIndex Insts" "addTB B TBIndex Insts = Inr B'"
  | (exec) Idx PC FbMAs where "Msg = ExecTB Idx PC FbMAs" "tbExec B Idx PC FbMAs = Some (Inr B')"
  using assms by (cases Msg) (auto simp: recvMessage_def)

lemma queue_slice_inv:
  assumes "unat Idx < length (TBs B)" and "TBs B ! unat Idx = Some TB0"
    and "length (VAddrOffsets TB0) = length (MCInsts TB0) \<longrightarrow>
         length (VAddrOffsets TB) = length (MCInsts TB)"
    and "queue_valid B" and "cache_wf (TBs B)"
  shows "queue_valid (queue_slice B (unat Idx) Cur TB FbMAs) \<and>
         cache_wf (TBs (queue_slice B (unat Idx) Cur TB FbMAs))"
proof -
  let ?C = "(TBs B)[unat Idx := Some TB]"
  from assms(1,2) have "Some TB0 \<in> set (TBs B)" by (metis nth_mem)
  with assms(3,5) have TB: "length (VAddrOffsets TB) = length (MCInsts TB)"
    by (auto simp: cache_wf_def)
  have wf: "cache_wf ?C"
    unfolding cache_wf_def
  proof (intro allI impI)
    fix X assume "Some X \<in> set ?C"
    then have "Some X \<in> insert (Some TB) (set (TBs B))"
      using set_update_subset_insert [of "TBs B" "unat Idx" "Some TB"] by auto
    with TB assms(5) show "length (VAddrOffsets X) = length (MCInsts X)"
      by (auto simp: cache_wf_def)
  qed
  have old: "\<forall>s \<in> set (TBQueue B). slice_valid ?C s"
  proof
    fix s assume "s \<in> set (TBQueue B)"
    with assms(4) have "Index s < length (TBs B)" "TBs B ! Index s \<noteq> None"
      by (auto simp: queue_valid_def slice_valid_def)
    then show "slice_valid ?C s"
      by (cases "Index s = unat Idx") (simp_all add: slice_valid_def)
  qed
  show ?thesis
  proof (cases rule: queue_slice_cases [of B TB "unat Idx" Cur FbMAs])
    case (empty b e r c)
    with wf old show ?thesis by (simp add: queue_valid_def)
  next
    case (push b e r c)
    with wf old assms(1) show ?thesis by (simp add: queue_valid_def slice_valid_def)
  qed
qed

lemma recvMessage_inv:
  assumes "recvMessage B Msg = Some (Inr B')" and "queue_valid B" and "cache_wf (TBs B)"
  shows "queue_valid B' \<and> cache_wf (TBs B')"
  using assms(1)
proof (cases rule: recvMessage_cases)
  case (meta LoadAddr)
  with assms(2,3) show ?thesis by (simp add: handleMetadata_def queue_valid_def)
next
  case (tb TBIndex Insts)
  from addTB_props [OF tb(2)] assms(2,3) show ?thesis
    by (auto simp: queue_valid_def slice_valid_def)
next
  case (exec Idx PC FbMAs)
  from exec(2) show ?thesis
  proof (cases rule: tbExec_cases)
    case eos
    with assms(2,3) show ?thesis by (simp add: queue_valid_def)
  next
    case drop
    with assms(2,3) show ?thesis by simp
  next
    case (exec TB0 Cur TB)
    have "length (VAddrOffsets TB0) = length (MCInsts TB0) \<longrightarrow>
          length (VAddrOffsets TB) = length (MCInsts TB)"
      using translate_block_wf [OF exec(4)] by blast
    from queue_slice_inv [OF exec(2,3) this assms(2,3)] exec(5) show ?thesis by simp
  qed
qed

lemma split_valid: "slice_valid Cache q \<Longrightarrow> split q p = Inr (t, c) \<Longrightarrow> slice_valid Cache c"
  using split_fields [of q p t c] by (simp add: slice_valid_def)

lemma fetchRegion_inv:
  assumes "fetchRegion B MCISsize Size0 MDE = Some (Returned R)"
    and "queue_valid B" and "cache_wf (TBs B)"
  shows "queue_valid (After R) \<and> cache_wf (TBs (After R))"
  using assms(1)
proof (cases rule: fetchRegion_cases)
  case same
  with assms(2,3) show ?thesis by simp
next
  case (sel Size1 Q' Sel Size2 NT)
  from assms(2) have "\<forall>q \<in> set (TBQueue B). slice_valid (TBs B) q" by (simp add: queue_valid_def)
  from select_slices_preserves [OF sel(3) this split_valid]
  have "\<forall>q \<in> set Q'. slice_valid (TBs B) q" by simp
  with sel(5) assms(3) show ?thesis by (simp add: queue_valid_def)
qed

lemma reachable_inv:
  assumes "reachable T Regions B"
  shows "queue_valid B \<and> cache_wf (TBs B)"
  using assms
proof (induction rule: reachable.induct)
  case reach_init
  show ?case by (simp add: init_broker_def queue_valid_def cache_wf_def)
next
  case (reach_recv B Msg B')
  from recvMessage_inv [OF reach_recv(2)] reach_recv(3) show ?case by blast
next
  case (reach_fetch B MCISsize Size0 MDE R)
  from fetchRegion_inv [OF reach_fetch(2)] reach_fetch(3) show ?case by blast
qed



lemma tbExec_keeps_flag:
  assumes "tbExec B Idx PC FbMAs = Some (Inr B')" and "IsEndOfStream B"
  shows "IsEndOfStream B'"
  using assms(1)
proof (cases rule: tbExec_cases)
  case (exec TB0 Cur TB)
  show ?thesis
    by (cases rule: queue_slice_cases [of B TB "unat Idx" Cur FbMAs])
       (simp_all add: exec(5) assms(2))
qed (simp_all add: assms(2))

text \<open>Unfolding a run on concrete messages.\<close>

lemmas run_simps =
  state_after_def recvMessage_def addTB_def tbExec_def translate_block_def disassemble_def
  select_disassembler_def start_vaddr_def useDisassembler_def DisAsm_def SecondaryDisAsm_def
  queue_slice_def handle_regions_def init_broker_def NewTB_def resize_def byte_target_def
  byte_decoder_def next_Index_def handleMetadata_def decode_loop.simps Let_def

section \<open>Bounds of queued slices\<close>

lemma scan_start_bounds:
  assumes "scan_start lk VA Offsets i = (j, c)"
  shows "(c = None \<longrightarrow> j = i + length Offsets) \<and> (c \<noteq> None \<longrightarrow> i \<le> j \<and> j < i + length Offsets)"
  using assms
proof (induction Offsets arbitrary: i)
  case Nil
  then show ?case by simp
next
  case (Cons Offset Offsets)
  show ?case
  proof (cases "lk (VA + ucast Offset)")
    case None
    with Cons.prems have "scan_start lk VA Offsets (i + 1) = (j, c)" by simp
    from Cons.IH [OF this] show ?thesis by auto
  next
    case (Some R)
    with Cons.prems have "j = i" "c = Some R" by simp_all
    then show ?thesis by simp
  qed
qed

lemma scan_end_bounds: "i \<le> scan_end EndA VA Offsets i \<and> scan_end EndA VA Offsets i \<le> i + length Offsets"
proof (induction Offsets arbitrary: i)
  case Nil
  show ?case by simp
next
  case (Cons Offset Offsets)
  from Cons [of "i + 1"] show ?case by auto
qed

lemma unat16_of_nat: "n \<le> 65535 \<Longrightarrow> unat (of_nat n :: 16 word) = n"
  by (simp add: unat_of_nat)

lemma unat16_max: "unat (- 1 :: 16 word) = 65535"
  by (simp add: unsigned_minus_1_eq_mask mask_eq_exp_minus_1)

lemma handle_regions_bounds:
  assumes h: "handle_regions Regions Cur CodeStart TB = (b, e, r, c)"
    and S: "length (VAddrOffsets TB) \<le> 65535"
    and ne: "b \<noteq> e"
  shows "b < e \<and>
         (if VAddrOffsets TB = [] then b = 0 else unat b < length (VAddrOffsets TB)) \<and>
         (if r = None then e = - 1 else unat e \<le> length (VAddrOffsets TB))"
proof (cases "case Regions of None \<Rightarrow> True | Some R \<Rightarrow> regions_size R = 0")
  case True
  with h have "b = 0" "e = - 1" "r = None" by (auto simp: handle_regions_def)
  then show ?thesis by (simp add: word_less_nat_alt unat16_max)
next
  case False
  let ?S = "length (VAddrOffsets TB)"
  let ?VA = "VAddr TB - CodeStart"
  note max16 = unat16_max
  have fin: "b < e \<and> (if VAddrOffsets TB = [] then b = 0 else unat b < ?S) \<and>
             (if r = None then e = - 1 else unat e \<le> ?S)"
    if i: "i \<le> ?S" and bi: "unat b1 = i \<or> (i = 0 \<and> b1 = 0)" and b1: "i < ?S \<or> b1 = 0"
      and res: "(b, e, r, c) =
        (if VAddr TB \<ge> CodeStart
                then (let i' = scan_end (EndAddr CR) ?VA (drop i (VAddrOffsets TB)) i
                      in if i' \<noteq> ?S then (b1, of_nat (i' + 1), Some CR, None)
                         else (b1, - 1, None, Some CR))
                else (b1, - 1, None, Some CR))"
    for i b1 CR
  proof -
    define i' where "i' = scan_end (EndAddr CR) ?VA (drop i (VAddrOffsets TB)) i"
    from scan_end_bounds [of i "EndAddr CR" ?VA "drop i (VAddrOffsets TB)"] i
    have i': "i \<le> i'" "i' \<le> ?S" by (simp_all add: i'_def)
    have ub: "unat b1 < 65535" using bi b1 S i by auto
    have bd: "if VAddrOffsets TB = [] then b1 = 0 else unat b1 < ?S"
      using bi b1 by (cases "VAddrOffsets TB = []") auto
    show ?thesis
    proof (cases "VAddr TB \<ge> CodeStart \<and> i' \<noteq> ?S")
      case True
      with res have b: "b = b1" and e: "e = of_nat (i' + 1)" and r: "r = Some CR"
        by (simp_all add: i'_def Let_def)
      from True i' S have "i' + 1 \<le> ?S" "i' + 1 \<le> 65535" by simp_all
      then have ue: "unat e = i' + 1" using e unat16_of_nat by blast
      from bi i' have "unat b1 \<le> i'" by auto
      with ue b r bd \<open>i' + 1 \<le> ?S\<close> show ?thesis by (simp add: word_less_nat_alt)
    next
      case False
      with res have "b = b1" "e = - 1" "r = None"
        by (auto simp: i'_def Let_def split: if_splits)
      then show ?thesis using ub bd by (simp add: word_less_nat_alt max16)
    qed
  qed
  show ?thesis
  proof (cases Cur)
    case (Some CR)
    with h False have "(b, e, r, c) =
        (if VAddr TB \<ge> CodeStart
                then (let i' = scan_end (EndAddr CR) ?VA (drop 0 (VAddrOffsets TB)) 0
                      in if i' \<noteq> ?S then (0, of_nat (i' + 1), Some CR, None)
                         else (0, - 1, None, Some CR))
                else (0, - 1, None, Some CR))"
      by (auto simp: handle_regions_def Let_def split: if_splits)
    from fin [OF _ _ _ this] show ?thesis by simp
  next
    case None
    show ?thesis
    proof (cases "VAddr TB \<ge> CodeStart")
      case False
      with h None \<open>\<not> (case Regions of None \<Rightarrow> True | Some R \<Rightarrow> regions_size R = 0)\<close>
      have "b = - 1" "e = - 1" by (auto simp: handle_regions_def Let_def)
      with ne show ?thesis by simp
    next
      case True
      obtain i Cur' where sc: "scan_start (lookup_region (the Regions)) ?VA (VAddrOffsets TB) 0
          = (i, Cur')" by (cases "scan_start (lookup_region (the Regions)) ?VA (VAddrOffsets TB) 0")
      from scan_start_bounds [OF sc] have sb:
        "Cur' = None \<longrightarrow> i = ?S" "Cur' \<noteq> None \<longrightarrow> i < ?S" by auto
      show ?thesis
      proof (cases Cur')
        case None
        with h \<open>Cur = None\<close> True sc sb
          \<open>\<not> (case Regions of None \<Rightarrow> True | Some R \<Rightarrow> regions_size R = 0)\<close>
        have "b = - 1" "e = - 1" by (auto simp: handle_regions_def Let_def)
        with ne show ?thesis by simp
      next
        case (Some CR)
        with sb have lt: "i < ?S" by simp
        with h \<open>Cur = None\<close> True sc Some
          \<open>\<not> (case Regions of None \<Rightarrow> True | Some R \<Rightarrow> regions_size R = 0)\<close>
        have "(b, e, r, c) =
          (if VAddr TB \<ge> CodeStart
                then (let i' = scan_end (EndAddr CR) ?VA (drop i (VAddrOffsets TB)) i
                      in if i' \<noteq> ?S then (of_nat i, of_nat (i' + 1), Some CR, None)
                         else (of_nat i, - 1, None, Some CR))
                else (of_nat i, - 1, None, Some CR))"
          by (auto simp: handle_regions_def Let_def split: if_splits)
        moreover have "unat (of_nat i :: 16 word) = i" using lt S by (simp add: unat16_of_nat)
        ultimately show ?thesis using fin [of i "of_nat i" CR] lt by simp
      qed
    qed
  qed
qed


lemma split_point_ok:
  fixes b e :: "16 word"
  assumes "b \<le> e" and "0 < S" and "S < int (unat e - unat b)"
  shows "b < b + word_of_int S \<and> b + word_of_int S < e"
proof -
  define n where "n = nat S"
  from assms(2) have S: "S = int n" and n0: "0 < n" by (simp_all add: n_def)
  from assms(3) S have lt: "unat b + n < unat e" by linarith
  have e16: "unat e < 2 ^ 16" using unsigned_less [of e] by simp
  with lt have n16: "n < 2 ^ 16" by linarith
  have w: "word_of_int S = (of_nat n :: 16 word)" by (simp add: S)
  have un: "unat (of_nat n :: 16 word) = n" using n16 by (simp add: unat_of_nat)
  have "unat b + unat (of_nat n :: 16 word) < 2 ^ LENGTH(16)" using un lt e16 by simp
  then have "unat (b + of_nat n) = unat b + n"
    using unat_add_lem [of b "of_nat n"] un by simp
  with lt n0 w show ?thesis by (simp add: word_less_nat_alt)
qed

lemma select_step_no_fault:
  assumes "0 < S" and "BeginIdx q < EndIdx q"
  shows "select_step Cache S (q # Q0) Sel \<noteq> Inl f"
proof
  assume a: "select_step Cache S (q # Q0) Sel = Inl f"
  let ?len = "min (length (MCInsts (the (Cache ! Index q)))) (slice_size q)"
  from a have big: "int ?len > S"
    and sp: "split q (BeginIdx q + word_of_int S) = Inl f"
    by (auto simp: select_step_def Let_def split: if_splits sum.splits prod.splits)
  from assms(2) have sz: "slice_size q = unat (EndIdx q) - unat (BeginIdx q)"
    by (simp add: slice_size_def)
  from big sz have "S < int (unat (EndIdx q) - unat (BeginIdx q))" by simp
  from split_point_ok [OF _ assms(1) this] assms(2)
  have "BeginIdx q < BeginIdx q + word_of_int S \<and> BeginIdx q + word_of_int S < EndIdx q"
    by simp
  with sp show False by (simp add: split_def Let_def split: prod.splits)
qed

lemma select_slices_no_fault:
  assumes run: "select_slices Cache S Q Sel E = Some y"
    and Q: "\<forall>q \<in> set Q. BeginIdx q < EndIdx q"
  shows "y \<noteq> Inl f"
proof -
  have "(\<forall>q \<in> set Q. BeginIdx q < EndIdx q) \<longrightarrow> y \<noteq> Inl f"
    using run
  proof (rule select_slices.raw_induct
      [where P = "\<lambda>Cache S Q Sel E y. (\<forall>q \<in> set Q. BeginIdx q < EndIdx q) \<longrightarrow> y \<noteq> Inl f",
        rotated], goal_cases)
    case (1 loop Cache S Q Sel E y)
    show ?case
    proof
      assume PQ: "\<forall>q \<in> set Q. BeginIdx q < EndIdx q"
      show "y \<noteq> Inl f"
      proof (cases "S > 0 \<and> Q \<noteq> [] \<and> \<not> E")
        case False
        with 1(2) show ?thesis by auto
      next
        case True
        then obtain q Q0 where Qc: "Q = q # Q0" by (cases Q) auto
        show ?thesis
        proof (cases "select_step Cache S Q Sel")
          case (Inl g)
          with select_step_no_fault [of S q Cache Q0 Sel g] True PQ Qc show ?thesis by simp
        next
          case (Inr x)
          obtain S' Q' Sel' where x: "x = (S', Q', Sel')" by (cases x)
          from 1(2) True Inr x have
            rec: "loop Cache S' Q' Sel'
                      (if Sel' = [] then False else Region (last Sel') \<noteq> None) = Some y"
            by simp
          from Inr [unfolded x Qc] have "\<forall>q \<in> set Q'. BeginIdx q < EndIdx q"
          proof (cases rule: select_step_cases)
            case stuck
            with PQ Qc show ?thesis by simp
          next
            case pop
            with PQ Qc show ?thesis by simp
          next
            case (cut t c)
            from split_fields [OF cut(3)] cut(5) PQ Qc show ?thesis by simp
          qed
          with 1(1) [OF rec] show ?thesis by blast
        qed
      qed
    qed
  qed
  with Q show ?thesis by blast
qed

lemma deliver_insts_fault:
  "deliver_insts Insts TBIdx End i Size1 MAs Out NT MDE = Inl f \<Longrightarrow> f = OutOfBounds"
proof (induction Insts TBIdx End i Size1 MAs Out NT MDE rule: deliver_insts.induct)
  case (1 Insts TBIdx End i Size1 MAs Out NT MDE)
  show ?case
  proof (cases "i \<noteq> End \<and> Size1 > 0")
    case False
    with "1.prems" show ?thesis by (subst (asm) deliver_insts.simps) simp
  next
    case True
    show ?thesis
    proof (cases "i \<ge> length Insts")
      case oob: True
      with True "1.prems" show ?thesis by (subst (asm) deliver_insts.simps) simp
    next
      case False
      with True "1.prems" have
        "deliver_insts Insts TBIdx End (i + 1) (Size1 - 1)
                  (fst (consume_access MAs MDE TBIdx i (NT + 1)))
                  (Out @ [Insts ! i]) (NT + 1)
                  (snd (consume_access MAs MDE TBIdx i (NT + 1))) = Inl f"
        by (subst (asm) deliver_insts.simps) simp
      from "1.IH" [OF True False this] show ?thesis .
    qed
  qed
qed

lemma deliver_slices_fault:
  "deliver_slices Cache Sel Size1 Out NT MDE = Inl f \<Longrightarrow> f = OutOfBounds"
proof (induction Sel arbitrary: Size1 Out NT MDE)
  case Nil
  then show ?case by simp
next
  case (Cons q Sel)
  show ?case
  proof (cases "Index q < length Cache \<and> Cache ! Index q \<noteq> None")
    case False
    with Cons.prems show ?thesis by (auto simp: Let_def)
  next
    case True
    then obtain TB where TB: "Cache ! Index q = Some TB" by auto
    let ?Insts = "MCInsts (the (Cache ! Index q))"
    let ?d = "deliver_insts ?Insts (Index q) (min (length ?Insts) (unat (EndIdx q)))
                (unat (BeginIdx q)) Size1 (MemoryAccesses q) Out NT MDE"
    show ?thesis
    proof (cases ?d)
      case (Inl g)
      with True TB Cons.prems have "g = f" by (simp add: Let_def)
      with deliver_insts_fault [OF Inl] show ?thesis by simp
    next
      case (Inr x)
      obtain a b c d where x: "x = (a, b, c, d)" by (cases x)
      from True TB Cons.prems Inr x have "deliver_slices Cache Sel a b c d = Inl f"
        by (simp add: Let_def)
      from Cons.IH [OF this] show ?thesis .
    qed
  qed
qed

lemma split_order:
  "BeginIdx q < EndIdx q \<and> (Region q = None \<longrightarrow> EndIdx q = - 1) \<Longrightarrow> split q p = Inr (t, c) \<Longrightarrow>
   BeginIdx c < EndIdx c \<and> (Region c = None \<longrightarrow> EndIdx c = - 1)"
  using split_fields [of q p t c] by simp


lemma fetchRegion_fault:
  assumes "fetchRegion B MCISsize Size0 MDE = Some (Faulted f)"
    and "\<forall>q \<in> set (TBQueue B). BeginIdx q < EndIdx q"
  shows "f = OutOfBounds"
proof -
  define Size1 where "Size1 = (if Size0 < 0 \<or> Size0 > int MCISsize then int MCISsize else Size0)"
  from assms(1) have ne: "Size0 \<noteq> 0" "TBQueue B \<noteq> []"
    by (auto simp: fetchRegion_def Let_def split: if_splits)
  show ?thesis
  proof (cases "select_slices (TBs B) Size1 (TBQueue B) [] False")
    case None
    with assms(1) ne show ?thesis by (simp add: fetchRegion_def Let_def Size1_def)
  next
    case (Some y)
    show ?thesis
    proof (cases y)
      case (Inl g)
      with select_slices_no_fault [OF Some assms(2), of g] show ?thesis by simp
    next
      case (Inr x)
      obtain Q' Sel where x: "x = (Q', Sel)" by (cases x)
      show ?thesis
      proof (cases "deliver_slices (TBs B) Sel Size1 [] (TotalNumTraces B) MDE")
        case (Inl g)
        with assms(1) ne Some Inr x have "g = f"
          by (simp add: fetchRegion_def Let_def Size1_def)
        with deliver_slices_fault [OF Inl] show ?thesis by simp
      next
        case r: (Inr z)
        with assms(1) ne Some Inr x show ?thesis
          by (simp add: fetchRegion_def Let_def Size1_def split: prod.splits)
      qed
    qed
  qed
qed

lemma tbExec_push_bounds:
  assumes wf: "cache_wf (TBs B)"
    and run: "tbExec B Idx PC FbMAs = Some (Inr B')"
    and ch: "TBQueue B' \<noteq> TBQueue B"
    and small: "cache_small (TBs B')"
  shows "\<exists>s. TBQueue B' = TBQueue B @ [s] \<and> Index s = unat Idx \<and> push_bounds (TBs B') s"
  using run
proof (cases rule: tbExec_cases)
  case eos
  with ch show ?thesis by simp
next
  case drop
  with ch show ?thesis by simp
next
  case (exec TB0 Cur TB)
  from exec(2,3) have "Some TB0 \<in> set (TBs B)" by (metis nth_mem)
  with wf have "length (VAddrOffsets TB0) = length (MCInsts TB0)" by (simp add: cache_wf_def)
  from translate_block_wf [OF exec(4) this]
  have TBwf: "length (VAddrOffsets TB) = length (MCInsts TB)" .
  show ?thesis
  proof (cases rule: queue_slice_cases [of B TB "unat Idx" Cur FbMAs])
    case (empty b e r c)
    with exec(5) ch show ?thesis by simp
  next
    case (push b e r c)
    let ?s = "\<lparr>Index = unat Idx, BeginIdx = b, EndIdx = e, Region = r,
               MemoryAccesses = (if FbMAs \<noteq> [] then Some (build_chain (SkewIndicies TB) FbMAs)
                                 else None)\<rparr>"
    from push(3) exec(2,5) have at: "TBs B' ! unat Idx = Some TB"
      and len: "unat Idx < length (TBs B')" and q: "TBQueue B' = TBQueue B @ [?s]"
      by simp_all
    from at len have "Some TB \<in> set (TBs B')" by (metis nth_mem)
    with small have "length (MCInsts TB) \<le> 65535" by (auto simp: cache_small_def)
    with TBwf have "length (VAddrOffsets TB) \<le> 65535" by simp
    from handle_regions_bounds [OF push(1) this push(2)] TBwf
    have "b < e \<and> (if MCInsts TB = [] then b = 0 else unat b < length (MCInsts TB)) \<and>
          (if r = None then e = - 1 else unat e \<le> length (MCInsts TB))"
      by (auto split: if_splits)
    with at len have "push_bounds (TBs B') ?s" by (simp add: push_bounds_def)
    with q show ?thesis by auto
  qed
qed

lemma reachable_small_reachable:
  "reachable_small T Regions B \<Longrightarrow> reachable T Regions B"
  by (induction rule: reachable_small.induct) (auto intro: reachable.intros)

lemma push_bounds_order:
  "push_bounds Cache s \<Longrightarrow> BeginIdx s < EndIdx s \<and> (Region s = None \<longrightarrow> EndIdx s = - 1)"
  by (auto simp: push_bounds_def split: option.splits if_splits)

lemma reachable_small_order:
  assumes "reachable_small T Regions B"
  shows "\<forall>s \<in> set (TBQueue B). BeginIdx s < EndIdx s \<and> (Region s = None \<longrightarrow> EndIdx s = - 1)"
  using assms
proof (induction rule: reachable_small.induct)
  case small_init
  show ?case by (simp add: init_broker_def)
next
  case (small_recv B Msg B')
  from small_recv(2) show ?case
  proof (cases rule: recvMessage_cases)
    case (meta LoadAddr)
    then have "TBQueue B' = TBQueue B" by (simp add: handleMetadata_def)
    with small_recv(4) show ?thesis by simp
  next
    case (tb TBIndex Insts)
    from addTB_props [OF tb(2)] have "TBQueue B' = TBQueue B" by blast
    with small_recv(4) show ?thesis by simp
  next
    case (exec Idx PC FbMAs)
    show ?thesis
    proof (cases "TBQueue B' = TBQueue B")
      case True
      with small_recv(4) show ?thesis by simp
    next
      case False
      from reachable_inv [OF reachable_small_reachable [OF small_recv(1)]]
      have "cache_wf (TBs B)" by simp
      from tbExec_push_bounds [OF this exec(2) False small_recv(3)] obtain s where
        s: "TBQueue B' = TBQueue B @ [s]" "push_bounds (TBs B') s" by blast
      from push_bounds_order [OF s(2)] small_recv(4) show ?thesis
        unfolding s(1) by simp
    qed
  qed
next
  case (small_fetch B MCISsize Size0 MDE R)
  from small_fetch(2) show ?case
  proof (cases rule: fetchRegion_cases)
    case same
    with small_fetch(3) show ?thesis by simp
  next
    case (sel Size1 Q' Sel Size2 NT)
    have "\<forall>q \<in> set (fst (Q', Sel)).
            BeginIdx q < EndIdx q \<and> (Region q = None \<longrightarrow> EndIdx q = - 1)"
      by (rule select_slices_preserves [OF sel(3) small_fetch(3)]) (rule split_order)
    with sel(5) show ?thesis by simp
  qed
qed

section \<open>Fetching from a queue of slices within their blocks\<close>

lemma slice_open_size:
  assumes "slice_open Cache q"
  shows "slice_size q = unat (EndIdx q) - unat (BeginIdx q)"
    and "length (slice_insts Cache q)
           = min (length (MCInsts (the (Cache ! Index q)))) (unat (EndIdx q)) - unat (BeginIdx q)"
    and "0 < unat (EndIdx q) - unat (BeginIdx q)"
    and "length (slice_insts Cache q)
           \<le> min (length (MCInsts (the (Cache ! Index q)))) (slice_size q)"
  using assms
  by (auto simp: slice_open_def slice_size_def slice_insts_def word_less_nat_alt
      word_le_nat_alt)

lemma slice_within_size:
  assumes "slice_within Cache q"
  shows "min (length (MCInsts (the (Cache ! Index q)))) (slice_size q)
           = unat (EndIdx q) - unat (BeginIdx q)"
    and "length (slice_insts Cache q) = unat (EndIdx q) - unat (BeginIdx q)"
  using assms slice_open_size [of Cache q]
  by (auto simp: slice_within_def)

lemma split_open:
  assumes w: "slice_open Cache q"
    and S: "0 < S" "S < int (unat (EndIdx q) - unat (BeginIdx q))"
    and av: "nat S \<le> length (slice_insts Cache q)"
  obtains t c where "split q (BeginIdx q + word_of_int S) = Inr (t, c)"
    "slice_open Cache c" "slice_within Cache q \<longrightarrow> slice_within Cache c"
    "slice_within Cache (t\<lparr>Region := None\<rparr>)" "Region c = Region q"
    "slice_insts Cache (t\<lparr>Region := None\<rparr>) = take (nat S) (slice_insts Cache q)"
    "slice_insts Cache c = drop (nat S) (slice_insts Cache q)"
proof -
  let ?p = "BeginIdx q + word_of_int S"
  let ?M = "MCInsts (the (Cache ! Index q))"
  from w have be: "BeginIdx q < EndIdx q" and v: "slice_valid Cache q"
    and bd: "unat (BeginIdx q) \<le> length ?M"
    by (simp_all add: slice_open_def)
  from split_point_ok [OF _ S] be have p: "BeginIdx q < ?p" "?p < EndIdx q" by simp_all
  then obtain t c where sp: "split q ?p = Inr (t, c)"
    by (cases "split q ?p") (auto simp: split_def Let_def split: prod.splits)
  note f = split_fields [OF sp]
  define n where "n = nat S"
  from S have Sn: "S = int n" and lt: "unat (BeginIdx q) + n < unat (EndIdx q)"
    by (simp_all add: n_def)
  have up: "unat ?p = unat (BeginIdx q) + n"
  proof -
    have e16: "unat (EndIdx q) < 2 ^ 16" using unsigned_less [of "EndIdx q"] by simp
    with lt have un: "unat (of_nat n :: 16 word) = n" by (simp add: unat_of_nat)
    have "unat (BeginIdx q) + unat (of_nat n :: 16 word) < 2 ^ LENGTH(16)"
      using un lt e16 by simp
    then have "unat (BeginIdx q + of_nat n) = unat (BeginIdx q) + n"
      using unat_add_lem [of "BeginIdx q" "of_nat n"] un by simp
    then show ?thesis by (simp add: Sn)
  qed
  have n0: "0 < n" using S(1) by (simp add: n_def)
  from av slice_open_size(2) [OF w]
  have "n \<le> min (length ?M) (unat (EndIdx q)) - unat (BeginIdx q)" by (simp add: n_def)
  with n0 have pd: "unat (BeginIdx q) + n \<le> length ?M" by linarith
  have c: "slice_open Cache c"
    using f v p up pd by (simp add: slice_open_def slice_valid_def)
  have cw: "slice_within Cache q \<longrightarrow> slice_within Cache c"
    using c f by (simp add: slice_within_def)
  have t: "slice_within Cache (t\<lparr>Region := None\<rparr>)"
    using f v p up pd bd by (simp add: slice_within_def slice_open_def slice_valid_def)
  have ti: "slice_insts Cache (t\<lparr>Region := None\<rparr>) = take n (slice_insts Cache q)"
    using f up lt by (simp add: slice_insts_def min_def)
  have ci: "slice_insts Cache c = drop n (slice_insts Cache q)"
    using f up lt by (simp add: slice_insts_def drop_take add.commute)
  from that [OF sp c cw t _ ti [unfolded n_def] ci [unfolded n_def]] f show thesis by simp
qed

lemma queue_within_Cons:
  "queue_within Cache (q # Q0) \<longleftrightarrow>
     slice_open Cache q \<and> (Q0 \<noteq> [] \<longrightarrow> slice_within Cache q \<and> Region q = None) \<and>
     queue_within Cache Q0"
  by (auto simp: queue_within_def)

lemma select_zero: "select_slices Cache 0 Q Sel E = Some (Inr (Q, Sel))"
  by (subst select_slices.simps) simp

lemma select_take:
  assumes "queue_within Cache Q" and "0 \<le> S" and "nat S \<le> length (queued_insts Cache Q)"
  shows "\<exists>Q' Sel'. select_slices Cache S Q Sel False = Some (Inr (Q', Sel @ Sel')) \<and>
           queue_within Cache Q' \<and> (\<forall>s \<in> set Sel'. slice_open Cache s) \<and>
           concat (map (slice_insts Cache) Sel') = take (nat S) (queued_insts Cache Q) \<and>
           queued_insts Cache Q' = drop (nat S) (queued_insts Cache Q)"
  using assms
proof (induction Q arbitrary: S Sel)
  case Nil
  have "select_slices Cache S [] Sel False = Some (Inr ([], Sel @ []))"
    by (subst select_slices.simps) simp
  then show ?case by (auto simp: queue_within_def queued_insts_def)
next
  case (Cons q Q0)
  from Cons.prems(1) have w: "slice_open Cache q"
    and reg: "Q0 \<noteq> [] \<longrightarrow> slice_within Cache q \<and> Region q = None"
    and w0: "queue_within Cache Q0"
    by (simp_all add: queue_within_Cons)
  let ?len = "min (length (MCInsts (the (Cache ! Index q)))) (slice_size q)"
  note sz = slice_open_size [OF w]
  from w have v: "Index q < length Cache \<and> Cache ! Index q \<noteq> None"
    by (simp add: slice_open_def slice_valid_def)
  show ?case
  proof (cases "S = 0")
    case True
    have "select_slices Cache S (q # Q0) Sel False = Some (Inr (q # Q0, Sel @ []))"
      using True by (simp add: select_zero)
    with Cons.prems(1) True show ?thesis by auto
  next
    case False
    with Cons.prems(2) have pos: "0 < S" by simp
    have avail: "Q0 = [] \<Longrightarrow> nat S \<le> length (slice_insts Cache q)"
      using Cons.prems(3) by (simp add: queued_insts_def)
    have exact: "Q0 \<noteq> [] \<Longrightarrow> ?len = length (slice_insts Cache q)"
      using reg slice_within_size [of Cache q] by simp
    show ?thesis
    proof (cases "int ?len > S")
      case True
      have n: "nat S \<le> length (slice_insts Cache q)"
        using True exact avail pos by (cases "Q0 = []") simp_all
      from True sz(1) have "S < int (unat (EndIdx q) - unat (BeginIdx q))" by simp
      from split_open [OF w pos this n] obtain t c where
        sp: "split q (BeginIdx q + word_of_int S) = Inr (t, c)"
        and c: "slice_open Cache c" and cw: "slice_within Cache q \<longrightarrow> slice_within Cache c"
        and t: "slice_within Cache (t\<lparr>Region := None\<rparr>)"
        and rc: "Region c = Region q"
        and ti: "slice_insts Cache (t\<lparr>Region := None\<rparr>) = take (nat S) (slice_insts Cache q)"
        and ci: "slice_insts Cache c = drop (nat S) (slice_insts Cache q)"
        by blast
      from True v sp have
        st: "select_step Cache S (q # Q0) Sel = Inr (0, c # Q0, Sel @ [t\<lparr>Region := None\<rparr>])"
        by (simp add: select_step_def Let_def)
      have run: "select_slices Cache S (q # Q0) Sel False
                   = Some (Inr (c # Q0, Sel @ [t\<lparr>Region := None\<rparr>]))"
        using pos st by (subst select_slices.simps) (simp add: select_zero)
      have qw: "queue_within Cache (c # Q0)"
        using c cw rc reg w0 by (simp add: queue_within_Cons)
      have "concat (map (slice_insts Cache) [t\<lparr>Region := None\<rparr>])
              = take (nat S) (queued_insts Cache (q # Q0))"
        using ti n by (simp add: queued_insts_def)
      moreover have "queued_insts Cache (c # Q0) = drop (nat S) (queued_insts Cache (q # Q0))"
        using ci n by (simp add: queued_insts_def)
      ultimately show ?thesis using run qw t
        by (intro exI [of _ "c # Q0"] exI [of _ "[t\<lparr>Region := None\<rparr>]"])
           (simp add: slice_within_def)
    next
      case False
      with v have
        st: "select_step Cache S (q # Q0) Sel = Inr (S - int ?len, Q0, Sel @ [q])"
        by (simp add: select_step_def Let_def)
      from False pos sz(4) have ge: "length (slice_insts Cache q) \<le> nat S" by linarith
      have unf: "select_slices Cache S (q # Q0) Sel False
                   = select_slices Cache (S - int ?len) Q0 (Sel @ [q]) (Region q \<noteq> None)"
        using pos st by (subst select_slices.simps) simp
      show ?thesis
      proof (cases "Q0 = []")
        case True
        have "select_slices Cache (S - int ?len) [] (Sel @ [q]) (Region q \<noteq> None)
                = Some (Inr ([], Sel @ [q]))"
          by (subst select_slices.simps) simp
        with unf True have run: "select_slices Cache S (q # Q0) Sel False
                = Some (Inr ([], Sel @ [q]))" by simp
        from ge True have "concat (map (slice_insts Cache) [q]) = take (nat S) (queued_insts Cache (q # Q0))"
          "queued_insts Cache [] = drop (nat S) (queued_insts Cache (q # Q0))"
          by (simp_all add: queued_insts_def)
        with run w show ?thesis
          by (intro exI [of _ "[]"] exI [of _ "[q]"]) (simp add: queue_within_def)
      next
        case ne: False
        with reg have "Region q = None" by simp
        with unf have unf': "select_slices Cache S (q # Q0) Sel False
                   = select_slices Cache (S - int ?len) Q0 (Sel @ [q]) False" by simp
        from False have p2: "0 \<le> S - int ?len" by simp
        have nn: "nat (S - int ?len) = nat S - length (slice_insts Cache q)"
          using exact [OF ne] pos by linarith
        from Cons.prems(3) nn have p3: "nat (S - int ?len) \<le> length (queued_insts Cache Q0)"
          by (simp add: queued_insts_def)
        from Cons.IH [OF w0 p2 p3, of "Sel @ [q]"] obtain Q' Sel' where
          r: "select_slices Cache (S - int ?len) Q0 (Sel @ [q]) False
                = Some (Inr (Q', (Sel @ [q]) @ Sel'))"
          and qw: "queue_within Cache Q'" and sw: "\<forall>s \<in> set Sel'. slice_open Cache s"
          and tk: "concat (map (slice_insts Cache) Sel')
                     = take (nat (S - int ?len)) (queued_insts Cache Q0)"
          and dr: "queued_insts Cache Q' = drop (nat (S - int ?len)) (queued_insts Cache Q0)"
          by blast
        have "concat (map (slice_insts Cache) (q # Sel'))
                = take (nat S) (queued_insts Cache (q # Q0))"
          using tk ge nn by (simp add: queued_insts_def)
        moreover have "queued_insts Cache Q' = drop (nat S) (queued_insts Cache (q # Q0))"
          using dr ge nn by (simp add: queued_insts_def)
        ultimately show ?thesis using unf' r qw sw w
          by (intro exI [of _ Q'] exI [of _ "q # Sel'"]) simp
      qed
    qed
  qed
qed

lemma deliver_insts_take:
  assumes "i \<le> End" and "End \<le> length Insts" and "int (End - i) \<le> Size1"
  shows "\<exists>NT' MDE'. deliver_insts Insts TBIdx End i Size1 MAs Out NT MDE
           = Inr (Size1 - int (End - i), Out @ take (End - i) (drop i Insts), NT', MDE')"
  using assms
proof (induction "End - i" arbitrary: i Size1 MAs Out NT MDE)
  case 0
  then have "i = End" by simp
  then show ?case by (subst deliver_insts.simps) simp
next
  case (Suc k)
  from Suc.hyps(2) Suc.prems have lt: "i < End" "i < length Insts" "0 < Size1" by linarith+
  have k: "k = End - (i + 1)" using Suc.hyps(2) by simp
  have p1: "i + 1 \<le> End" using lt by simp
  have p3: "int (End - (i + 1)) \<le> Size1 - 1" using Suc.prems(3) lt by linarith
  from Suc.hyps(1) [OF k p1 Suc.prems(2) p3] obtain NT' MDE' where
    r: "deliver_insts Insts TBIdx End (i + 1) (Size1 - 1)
          (fst (consume_access MAs MDE TBIdx i (NT + 1)))
          (Out @ [Insts ! i]) (NT + 1)
          (snd (consume_access MAs MDE TBIdx i (NT + 1)))
        = Inr (Size1 - 1 - int (End - (i + 1)),
               (Out @ [Insts ! i]) @ take (End - (i + 1)) (drop (i + 1) Insts), NT', MDE')"
    by blast
  have "End - i = Suc (End - (i + 1))" using lt by simp
  then have "take (End - i) (drop i Insts) = Insts ! i # take (End - (i + 1)) (drop (i + 1) Insts)"
    using lt Cons_nth_drop_Suc [of i Insts] by (metis Suc_eq_plus1 take_Suc_Cons)
  moreover have "Size1 - 1 - int (End - (i + 1)) = Size1 - int (End - i)" using lt by simp
  ultimately show ?case using r lt
    by (subst deliver_insts.simps) simp
qed


lemma deliver_slices_take:
  assumes "\<forall>s \<in> set Sel. slice_open Cache s"
    and "int (length (concat (map (slice_insts Cache) Sel))) \<le> Size1"
  shows "\<exists>NT' MDE'. deliver_slices Cache Sel Size1 Out NT MDE
           = Inr (Size1 - int (length (concat (map (slice_insts Cache) Sel))),
                  Out @ concat (map (slice_insts Cache) Sel), NT', MDE')"
  using assms
proof (induction Sel arbitrary: Size1 Out NT MDE)
  case Nil
  then show ?case by simp
next
  case (Cons q Sel)
  let ?M = "MCInsts (the (Cache ! Index q))"
  let ?b = "unat (BeginIdx q)" and ?e = "min (length ?M) (unat (EndIdx q))"
  from Cons.prems(1) have w: "slice_open Cache q" and rest: "\<forall>s \<in> set Sel. slice_open Cache s"
    by simp_all
  from w have v: "Index q < length Cache" "Cache ! Index q \<noteq> None"
    and be: "?b \<le> ?e" and ed: "?e \<le> length ?M"
    by (simp_all add: slice_open_def slice_valid_def word_less_nat_alt)
  note sz = slice_open_size [OF w]
  have si: "slice_insts Cache q = take (?e - ?b) (drop ?b ?M)"
    by (auto simp: slice_insts_def min_def)
  from Cons.prems(2) sz(2) have le1: "int (?e - ?b) \<le> Size1" by simp
  from deliver_insts_take [OF be ed le1, of "Index q" "MemoryAccesses q" Out NT MDE]
  obtain NT1 MDE1 where
    d: "deliver_insts ?M (Index q) ?e ?b Size1 (MemoryAccesses q) Out NT MDE
          = Inr (Size1 - int (?e - ?b), Out @ slice_insts Cache q, NT1, MDE1)"
    using si by auto
  from Cons.prems(2) sz(2)
  have le2: "int (length (concat (map (slice_insts Cache) Sel))) \<le> Size1 - int (?e - ?b)"
    by simp
  from Cons.IH [OF rest le2, of "Out @ slice_insts Cache q" NT1 MDE1] obtain NT' MDE' where
    r: "deliver_slices Cache Sel (Size1 - int (?e - ?b)) (Out @ slice_insts Cache q) NT1 MDE1
          = Inr (Size1 - int (?e - ?b) - int (length (concat (map (slice_insts Cache) Sel))),
                 (Out @ slice_insts Cache q) @ concat (map (slice_insts Cache) Sel), NT', MDE')"
    by blast
  from v d r sz(2) show ?case by (simp add: Let_def)
qed

lemma fetchRegion_take:
  assumes qw: "queue_within (TBs B) (TBQueue B)" and ne: "TBQueue B \<noteq> []"
    and n: "0 < n" "n \<le> int MCISsize"
    and av: "nat n \<le> length (queued_insts (TBs B) (TBQueue B))"
  shows "\<exists>R. fetchRegion B MCISsize n MDE = Some (Returned R) \<and>
           Delivered R = take (nat n) (queued_insts (TBs B) (TBQueue B)) \<and>
           TBs (After R) = TBs B \<and>
           queue_within (TBs B) (TBQueue (After R)) \<and>
           queued_insts (TBs B) (TBQueue (After R))
             = drop (nat n) (queued_insts (TBs B) (TBQueue B))"
proof -
  let ?QI = "queued_insts (TBs B) (TBQueue B)"
  from n have "0 \<le> n" by simp
  from select_take [OF qw this av, of "[]"] obtain Q' Sel where
    s: "select_slices (TBs B) n (TBQueue B) [] False = Some (Inr (Q', Sel))"
    and qw': "queue_within (TBs B) Q'" and sw: "\<forall>s \<in> set Sel. slice_open (TBs B) s"
    and tk: "concat (map (slice_insts (TBs B)) Sel) = take (nat n) ?QI"
    and dr: "queued_insts (TBs B) Q' = drop (nat n) ?QI"
    by auto
  from tk n have "int (length (concat (map (slice_insts (TBs B)) Sel))) \<le> n" by simp
  from deliver_slices_take [OF sw this, of "[]" "TotalNumTraces B" MDE] obtain NT' MDE' where
    d: "deliver_slices (TBs B) Sel n [] (TotalNumTraces B) MDE
          = Inr (n - int (length (concat (map (slice_insts (TBs B)) Sel))),
                 concat (map (slice_insts (TBs B)) Sel), NT', MDE')"
    by auto
  from n ne s d tk qw' dr show ?thesis
    by (simp add: fetchRegion_def Let_def)
qed

lemma fetch_repeat_take:
  assumes "queue_within (TBs B) (TBQueue B)"
    and "k \<le> length (queued_insts (TBs B) (TBQueue B))" and "1 \<le> MCISsize"
  shows "\<exists>B'. fetch_repeat k B MCISsize 1 MDE
           = Some (take k (queued_insts (TBs B) (TBQueue B)), B')"
  using assms(1,2)
proof (induction k arbitrary: B MDE)
  case 0
  show ?case by simp
next
  case (Suc k)
  let ?QI = "queued_insts (TBs B) (TBQueue B)"
  from Suc.prems(2) have "?QI \<noteq> []" by auto
  then have ne: "TBQueue B \<noteq> []" by (auto simp: queued_insts_def)
  from assms(3) have "(1::int) \<le> int MCISsize" by simp
  from Suc.prems(2) have "nat 1 \<le> length ?QI" by simp
  from fetchRegion_take [OF Suc.prems(1) ne _ \<open>1 \<le> int MCISsize\<close> this, of MDE] obtain R where
    f: "fetchRegion B MCISsize 1 MDE = Some (Returned R)"
    and dl: "Delivered R = take 1 ?QI" and tb: "TBs (After R) = TBs B"
    and qw: "queue_within (TBs B) (TBQueue (After R))"
    and dr: "queued_insts (TBs B) (TBQueue (After R)) = drop 1 ?QI"
    by auto
  from Suc.prems(2) dr tb have k: "k \<le> length (queued_insts (TBs (After R)) (TBQueue (After R)))"
    by simp
  from Suc.IH [OF _ k, of "Exchanger R"] qw tb obtain B' where
    r: "fetch_repeat k (After R) MCISsize 1 (Exchanger R) = Some (take k (drop 1 ?QI), B')"
    using dr by auto
  have "take (Suc k) ?QI = take 1 ?QI @ take k (drop 1 ?QI)"
    using take_add [of 1 k ?QI] by simp
  with f r dl show ?case by (simp add: fetch_def)
qed

lemma fetch_repeat_numeral:
  "fetch_repeat (numeral v) B MCISsize Size0 MDE =
     (case fetch B MCISsize Size0 MDE of
        Some (Returned R) \<Rightarrow>
          (case fetch_repeat (pred_numeral v) (fAfter R) MCISsize Size0 (fExchanger R) of
             Some (Out, B') \<Rightarrow> Some (fDelivered R @ Out, B')
           | None \<Rightarrow> None)
      | _ \<Rightarrow> None)"
  using fetch_repeat.simps(2) [of "pred_numeral v" B MCISsize Size0 MDE]
  by (simp only: numeral_eq_Suc)

text \<open>Unfolding a fetch on a concrete broker.\<close>

lemmas fetch_simps =
  fetchRegion_def select_slices.simps select_step_def split_def slice_size_def
  deliver_insts.simps consume_access_def unat16_max

section \<open>Splitting a sorted chain\<close>

lemma lower_bound_spec:
  assumes "sorted (map fst MAs)" and "first + len \<le> length MAs"
    and "\<forall>j < first. fst (MAs ! j) < Idx"
    and "\<forall>j. first + len \<le> j \<and> j < length MAs \<longrightarrow> Idx \<le> fst (MAs ! j)"
  shows "lower_bound MAs first len Idx \<le> length MAs \<and>
         (\<forall>j < lower_bound MAs first len Idx. fst (MAs ! j) < Idx) \<and>
         (\<forall>j. lower_bound MAs first len Idx \<le> j \<and> j < length MAs \<longrightarrow> Idx \<le> fst (MAs ! j))"
  using assms
proof (induction MAs first len Idx rule: lower_bound.induct)
  case (1 MAs first len Idx)
  show ?case
  proof (cases "len = 0")
    case True
    with "1.prems" show ?thesis by (subst (1 2 3) lower_bound.simps) simp
  next
    case False
    define half where "half = len div 2"
    define mid where "mid = first + half"
    have hl: "half < len" using False by (simp add: half_def)
    have ml: "mid < length MAs" using hl "1.prems"(2) by (simp add: mid_def)
    have mono: "\<And>i j. i \<le> j \<Longrightarrow> j < length MAs \<Longrightarrow> fst (MAs ! i) \<le> fst (MAs ! j)"
      using "1.prems"(1) by (metis (no_types, lifting) length_map nth_map order_le_less_trans
          sorted_iff_nth_mono)
    show ?thesis
    proof (cases "fst (MAs ! mid) < Idx")
      case True
      have a: "mid + 1 + (len - half - 1) \<le> length MAs" using hl "1.prems"(2) by (simp add: mid_def)
      have b: "\<forall>j < mid + 1. fst (MAs ! j) < Idx"
      proof (intro allI impI)
        fix j assume "j < mid + 1"
        then have "j \<le> mid" by simp
        from mono [OF this ml] True show "fst (MAs ! j) < Idx" by simp
      qed
      have c: "\<forall>j. mid + 1 + (len - half - 1) \<le> j \<and> j < length MAs \<longrightarrow> Idx \<le> fst (MAs ! j)"
        using "1.prems"(4) hl by (simp add: mid_def)
      from "1.IH"(1) [OF False half_def mid_def True "1.prems"(1) a b c]
      have "lower_bound MAs (mid + 1) (len - half - 1) Idx \<le> length MAs \<and>
         (\<forall>j < lower_bound MAs (mid + 1) (len - half - 1) Idx. fst (MAs ! j) < Idx) \<and>
         (\<forall>j. lower_bound MAs (mid + 1) (len - half - 1) Idx \<le> j \<and> j < length MAs
               \<longrightarrow> Idx \<le> fst (MAs ! j))" .
      moreover have "lower_bound MAs first len Idx = lower_bound MAs (mid + 1) (len - half - 1) Idx"
        using False True by (subst lower_bound.simps) (simp add: Let_def half_def mid_def)
      ultimately show ?thesis by simp
    next
      case ge: False
      have a: "first + half \<le> length MAs" using ml by (simp add: mid_def)
      have c: "\<forall>j. first + half \<le> j \<and> j < length MAs \<longrightarrow> Idx \<le> fst (MAs ! j)"
      proof (intro allI impI)
        fix j assume "first + half \<le> j \<and> j < length MAs"
        then have "mid \<le> j" "j < length MAs" by (simp_all add: mid_def)
        from mono [OF this] ge show "Idx \<le> fst (MAs ! j)" by simp
      qed
      from "1.IH"(2) [OF False half_def mid_def ge "1.prems"(1) a "1.prems"(3) c]
      have "lower_bound MAs first half Idx \<le> length MAs \<and>
         (\<forall>j < lower_bound MAs first half Idx. fst (MAs ! j) < Idx) \<and>
         (\<forall>j. lower_bound MAs first half Idx \<le> j \<and> j < length MAs
               \<longrightarrow> Idx \<le> fst (MAs ! j))" .
      moreover have "lower_bound MAs first len Idx = lower_bound MAs first half Idx"
        using False ge by (subst lower_bound.simps) (simp add: Let_def half_def mid_def)
      ultimately show ?thesis by simp
    qed
  qed
qed

lemma take_drop_filter:
  assumes "r \<le> length xs" and "\<forall>j < r. P (xs ! j)"
    and "\<forall>j. r \<le> j \<and> j < length xs \<longrightarrow> \<not> P (xs ! j)"
  shows "take r xs = filter P xs \<and> drop r xs = filter (\<lambda>x. \<not> P x) xs"
proof -
  have t: "\<forall>x \<in> set (take r xs). P x"
    using assms(1,2) by (auto simp: in_set_conv_nth)
  have d: "\<forall>x \<in> set (drop r xs). \<not> P x"
    using assms(1,3) by (auto simp: in_set_conv_nth)
  have "filter P xs = filter P (take r xs) @ filter P (drop r xs)"
    by (metis append_take_drop_id filter_append)
  moreover have "filter (\<lambda>x. \<not> P x) xs
      = filter (\<lambda>x. \<not> P x) (take r xs) @ filter (\<lambda>x. \<not> P x) (drop r xs)"
    by (metis append_take_drop_id filter_append)
  ultimately show ?thesis using t d by (simp add: filter_id_conv filter_empty_conv)
qed

text \<open>
  On an index-sorted chain \<^verbatim>\<open>split\<close> moves exactly the entries below the split point to
  the front slice when some entry lies at or above the split point; otherwise it moves
  nothing.
\<close>

lemma split_chain:
  assumes "sorted (map fst MAs)" and "MemoryAccesses s = Some MAs"
    and "BeginIdx s < p" and "p < EndIdx s"
  shows "split s p =
           Inr (\<lparr>Index = Index s, BeginIdx = BeginIdx s, EndIdx = p, Region = Region s,
                 MemoryAccesses =
                   (if \<exists>e \<in> set MAs. unat p \<le> fst e
                    then Some (filter (\<lambda>e. fst e < unat p) MAs) else None)\<rparr>,
                s\<lparr>MemoryAccesses :=
                    (if \<exists>e \<in> set MAs. unat p \<le> fst e
                     then Some (filter (\<lambda>e. \<not> fst e < unat p) MAs) else Some MAs),
                  BeginIdx := p\<rparr>)"
proof -
  let ?r = "lower_bound MAs 0 (length MAs) (unat p)"
  from lower_bound_spec [OF assms(1), of 0 "length MAs" "unat p"]
  have r: "?r \<le> length MAs" "\<forall>j < ?r. fst (MAs ! j) < unat p"
    "\<forall>j. ?r \<le> j \<and> j < length MAs \<longrightarrow> unat p \<le> fst (MAs ! j)" by simp_all
  have iff: "?r \<noteq> length MAs \<longleftrightarrow> (\<exists>e \<in> set MAs. unat p \<le> fst e)"
  proof
    assume "?r \<noteq> length MAs"
    with r(1) have "?r < length MAs" by simp
    with r(3) have "unat p \<le> fst (MAs ! ?r)" by simp
    with \<open>?r < length MAs\<close> show "\<exists>e \<in> set MAs. unat p \<le> fst e" by (meson nth_mem)
  next
    assume "\<exists>e \<in> set MAs. unat p \<le> fst e"
    then obtain j where "j < length MAs" "unat p \<le> fst (MAs ! j)" by (auto simp: in_set_conv_nth)
    with r(2) have "\<not> j < ?r" by (meson not_le)
    with \<open>j < length MAs\<close> show "?r \<noteq> length MAs" by simp
  qed
  have "\<forall>j. ?r \<le> j \<and> j < length MAs \<longrightarrow> \<not> fst (MAs ! j) < unat p"
    using r(3) by (simp add: not_less)
  from take_drop_filter [OF r(1,2) this]
  have td: "take ?r MAs = filter (\<lambda>e. fst e < unat p) MAs"
    "drop ?r MAs = filter (\<lambda>e. \<not> fst e < unat p) MAs" by simp_all
  show ?thesis
    using assms(2,3,4) iff td by (simp add: split_def Let_def)
qed

section \<open>The merged size without wrap-around, and the exits of the decode loop\<close>

lemma merge_size_exact:
  fixes a1 a2 :: "64 word" and s1 s2 :: "32 word"
  assumes "unat a1 + unat s1 < 2 ^ 64" and "unat a2 + unat s2 < 2 ^ 64"
    and "max (unat a1 + unat s1) (unat a2 + unat s2) - min (unat a1) (unat a2) < 2 ^ 32"
  shows "unat (ucast (max (a1 + ucast s1) (a2 + ucast s2) - min a1 a2) :: 32 word)
           = max (unat a1 + unat s1) (unat a2 + unat s2) - min (unat a1) (unat a2)"
proof -
  have u1: "unat (ucast s1 :: 64 word) = unat s1" and u2: "unat (ucast s2 :: 64 word) = unat s2"
    by (simp_all add: unsigned_ucast_eq take_bit_nat_eq_self unsigned_less [THEN order_less_trans])
  have e1: "unat (a1 + ucast s1) = unat a1 + unat s1"
    using assms(1) unat_add_lem [of a1 "ucast s1"] u1 by simp
  have e2: "unat (a2 + ucast s2) = unat a2 + unat s2"
    using assms(2) unat_add_lem [of a2 "ucast s2"] u2 by simp
  have mx: "unat (max (a1 + ucast s1) (a2 + ucast s2)) = max (unat a1 + unat s1) (unat a2 + unat s2)"
    using e1 e2 by (simp add: max_def word_le_nat_alt)
  have mn: "unat (min a1 a2) = min (unat a1) (unat a2)"
    by (simp add: min_def word_le_nat_alt)
  have le: "min a1 a2 \<le> max (a1 + ucast s1) (a2 + ucast s2)"
    using mx mn by (simp add: word_le_nat_alt)
  have d: "unat (max (a1 + ucast s1) (a2 + ucast s2) - min a1 a2)
             = max (unat a1 + unat s1) (unat a2 + unat s2) - min (unat a1) (unat a2)"
    using unat_sub [OF le] mx mn by simp
  show ?thesis
    using d assms(3) by (simp add: unsigned_ucast_eq take_bit_nat_eq_self)
qed

lemma uint_up32: "uint (ucast (s :: 32 word) :: 64 word) = uint s"
  by (simp add: unsigned_ucast_eq take_bit_int_eq_self unsigned_less [THEN order_less_trans])

lemma merge_size_modular:
  fixes a1 a2 :: "64 word" and s1 s2 :: "32 word"
  shows "uint (ucast (max (a1 + ucast s1) (a2 + ucast s2) - min a1 a2) :: 32 word)
           = (max ((uint a1 + uint s1) mod 2 ^ 64) ((uint a2 + uint s2) mod 2 ^ 64)
              - min (uint a1) (uint a2)) mod 2 ^ 32"
proof -
  have e1: "uint (a1 + ucast s1) = (uint a1 + uint s1) mod 2 ^ 64"
    by (simp add: uint_word_ariths uint_up32)
  have e2: "uint (a2 + ucast s2) = (uint a2 + uint s2) mod 2 ^ 64"
    by (simp add: uint_word_ariths uint_up32)
  have mx: "uint (max (a1 + ucast s1) (a2 + ucast s2))
              = max ((uint a1 + uint s1) mod 2 ^ 64) ((uint a2 + uint s2) mod 2 ^ 64)"
    using e1 e2 by (simp add: max_def word_le_def)
  have mn: "uint (min a1 a2) = min (uint a1) (uint a2)"
    by (simp add: min_def word_le_def)
  have "uint (ucast (max (a1 + ucast s1) (a2 + ucast s2) - min a1 a2) :: 32 word)
          = uint (max (a1 + ucast s1) (a2 + ucast s2) - min a1 a2) mod 2 ^ 32"
    by (simp add: unsigned_ucast_eq take_bit_eq_mod)
  also have "\<dots> = ((uint (max (a1 + ucast s1) (a2 + ucast s2)) - uint (min a1 a2)) mod 2 ^ 64)
                     mod 2 ^ 32"
    by (simp add: uint_word_ariths)
  also have "\<dots> = (uint (max (a1 + ucast s1) (a2 + ucast s2)) - uint (min a1 a2)) mod 2 ^ 32"
    by (rule mod_mod_cancel) simp
  finally show ?thesis by (simp only: mx mn)
qed

lemma decode_loop_exits:
  "\<not> unat ByteIndex < length RawInst \<Longrightarrow>
     decode_loop Cur RawInst CurVAddr StartVAddr ByteIndex N off TB = Some (Inr (off, TB))"
  "unat ByteIndex < length RawInst \<Longrightarrow>
     d (drop (unat ByteIndex) RawInst) (CurVAddr + ByteIndex) = None \<Longrightarrow>
     decode_loop (Some d) RawInst CurVAddr StartVAddr ByteIndex N off TB = Some (Inr (off, TB))"
  by (subst decode_loop.simps, simp)+

section \<open>Results\<close>

text \<open>
  C1, as the code has it, for the states reached through caches whose blocks have at most
  65535 decoded instructions (what the 16-bit bounds can hold). Every slice in the queue,
  pushed by \<^verbatim>\<open>tbExec\<close> or left there by a split, has \<open>0 \<le> begin < end\<close>, and its end is the
  open-end marker \<open>0xFFFF\<close> unless the slice carries a region-end marker; so the
  assertion of \<^verbatim>\<open>split\<close> never fails in a fetch. A slice that \<^verbatim>\<open>tbExec\<close> pushes names the
  block of the event and, against the decoded instructions of that block at the push,
  begins at one of them (\<open>begin < |decoded|\<close>, or \<open>begin = 0\<close> when the block has none) and,
  when it carries a region-end marker, ends within them (\<open>end \<le> |decoded|\<close>). Nothing is
  said about where the remainder of a split begins relative to the decoded instructions.
\<close>

theorem queued_slice_bounds:
  assumes "reachable_small T Regions B"
  shows "(\<forall>s \<in> set (TBQueue B).
            BeginIdx s < EndIdx s \<and> (Region s = None \<longrightarrow> EndIdx s = - 1)) \<and>
         (\<forall>MCISsize Size0 MDE.
            fetchRegion B MCISsize Size0 MDE \<noteq> Some (Faulted AssertionFailed)) \<and>
         (\<forall>Idx PC FbMAs B'.
            tbExec B Idx PC FbMAs = Some (Inr B') \<longrightarrow> TBQueue B' \<noteq> TBQueue B \<longrightarrow>
            cache_small (TBs B') \<longrightarrow>
            (\<exists>s. TBQueue B' = TBQueue B @ [s] \<and> Index s = unat Idx \<and> push_bounds (TBs B') s))"
proof (intro conjI allI impI)
  show "\<forall>s \<in> set (TBQueue B). BeginIdx s < EndIdx s \<and> (Region s = None \<longrightarrow> EndIdx s = - 1)"
    by (rule reachable_small_order [OF assms])
next
  fix MCISsize Size0 MDE
  from reachable_small_order [OF assms]
  have "\<forall>q \<in> set (TBQueue B). BeginIdx q < EndIdx q" by blast
  from fetchRegion_fault [OF _ this]
  show "fetchRegion B MCISsize Size0 MDE \<noteq> Some (Faulted AssertionFailed)" by blast
next
  fix Idx PC FbMAs B'
  assume run: "tbExec B Idx PC FbMAs = Some (Inr B')" and ch: "TBQueue B' \<noteq> TBQueue B"
    and small: "cache_small (TBs B')"
  from reachable_inv [OF reachable_small_reachable [OF assms]]
  have "cache_wf (TBs B)" by simp
  from tbExec_push_bounds [OF this run ch small]
  show "\<exists>s. TBQueue B' = TBQueue B @ [s] \<and> Index s = unat Idx \<and> push_bounds (TBs B') s" .
qed

theorem queued_slice_bounds_witness:
  "TBQueue (state_after (init_broker (byte_target []) None)
      [TranslatedBlock 0 [[1], [2]], ExecTB 0 0x1000 []]) \<noteq> [] \<and>
   push_bounds
     (TBs (state_after (init_broker (byte_target []) None)
        [TranslatedBlock 0 [[1], [2]], ExecTB 0 0x1000 []]))
     (hd (TBQueue (state_after (init_broker (byte_target []) None)
        [TranslatedBlock 0 [[1], [2]], ExecTB 0 0x1000 []]))) \<and>
   BeginIdx (hd (TBQueue (state_after (init_broker (byte_target []) None)
        [TranslatedBlock 0 [[1], [2]], ExecTB 0 0x1000 []])))
     < EndIdx (hd (TBQueue (state_after (init_broker (byte_target []) None)
        [TranslatedBlock 0 [[1], [2]], ExecTB 0 0x1000 []])))"
proof -
  let ?T = "byte_target []"
  let ?B0 = "init_broker ?T None"
  let ?B1 = "state_after ?B0 [TranslatedBlock 0 [[1], [2]]]"
  let ?B2 = "state_after ?B0 [TranslatedBlock 0 [[1], [2]], ExecTB 0 0x1000 []]"
  have 1: "recvMessage ?B0 (TranslatedBlock 0 [[1], [2]]) = Some (Inr ?B1)"
    by (simp add: run_simps)
  have s1: "cache_small (TBs ?B1)" by (simp add: run_simps cache_small_def)
  have r1: "reachable_small ?T None ?B1" by (rule small_recv [OF small_init 1 s1])
  have 2: "tbExec ?B1 0 0x1000 [] = Some (Inr ?B2)" by (simp add: run_simps)
  then have m2: "recvMessage ?B1 (ExecTB 0 0x1000 []) = Some (Inr ?B2)"
    by (simp add: recvMessage_def)
  have s2: "cache_small (TBs ?B2)" by (simp add: run_simps cache_small_def)
  have r2: "reachable_small ?T None ?B2" by (rule small_recv [OF r1 m2 s2])
  have q1: "TBQueue ?B1 = []" by (simp add: run_simps)
  have q2: "TBQueue ?B2 \<noteq> []" by (simp add: run_simps)
  from queued_slice_bounds [OF r1] 2 q1 q2 s2
  obtain s where "TBQueue ?B2 = TBQueue ?B1 @ [s]" "push_bounds (TBs ?B2) s"
    by (metis (no_types, lifting))
  with q1 have p: "push_bounds (TBs ?B2) (hd (TBQueue ?B2))" by simp
  from queued_slice_bounds [OF r2] q2
  have "BeginIdx (hd (TBQueue ?B2)) < EndIdx (hd (TBQueue ?B2))" by simp
  with p q2 show ?thesis by blast
qed

text \<open>
  C1 as stated fails on the upper bound: without regions \<^verbatim>\<open>tbExec\<close> queues \<open>[0, 0xFFFF)\<close>
  for a block of two decoded instructions, and also for a block whose only raw
  instruction does not decode, where \<open>begin = 0 = |decoded|\<close>.
\<close>

theorem queued_slice_end_beyond_decoded:
  "TBQueue (state_after (init_broker (byte_target []) None)
      [TranslatedBlock 0 [[1], [2]], ExecTB 0 0x1000 []]) =
     [\<lparr>Index = 0, BeginIdx = 0, EndIdx = 0xFFFF, Region = None, MemoryAccesses = None\<rparr>] \<and>
   map_option MCInsts (TBs (state_after (init_broker (byte_target []) None)
      [TranslatedBlock 0 [[1], [2]], ExecTB 0 0x1000 []]) ! 0) = Some [1, 2] \<and>
   \<not> unat (0xFFFF :: 16 word) \<le> length [1 :: 8 word, 2] \<and>
   TBQueue (state_after (init_broker (byte_target [0xFF]) None)
      [TranslatedBlock 0 [[0xFF]], ExecTB 0 0x1000 []]) =
     [\<lparr>Index = 0, BeginIdx = 0, EndIdx = 0xFFFF, Region = None, MemoryAccesses = None\<rparr>] \<and>
   map_option MCInsts (TBs (state_after (init_broker (byte_target [0xFF]) None)
      [TranslatedBlock 0 [[0xFF]], ExecTB 0 0x1000 []]) ! 0) = Some []"
  by (simp add: run_simps)

text \<open>
  C2. A split is meant to move the chain entries with index below the split point to the
  front slice. \<^verbatim>\<open>split\<close> does so only when some entry has an index at or above the split
  point: when every entry is below it, \<^verbatim>\<open>lower_bound\<close> returns the end of the chain, the
  guard \<^verbatim>\<open>MASplit != MemoryAccesses->end()\<close> fails, the front slice gets no chain and the
  queued remainder keeps every entry. Here: the slice \<open>[0, 3)\<close> with the single access at
  index 0, split at 1.
\<close>

theorem split_keeps_low_entries_in_tail:
  "split \<lparr>Index = 0, BeginIdx = 0, EndIdx = 3, Region = None,
          MemoryAccesses = Some [(0, \<lparr>IsStore = False, Addr = 0x20, Size = 4\<rparr>)]\<rparr> 1
   = Inr (\<lparr>Index = 0, BeginIdx = 0, EndIdx = 1, Region = None, MemoryAccesses = None\<rparr>,
          \<lparr>Index = 0, BeginIdx = 1, EndIdx = 3, Region = None,
           MemoryAccesses = Some [(0, \<lparr>IsStore = False, Addr = 0x20, Size = 4\<rparr>)]\<rparr>)"
  by (simp add: split_def lower_bound.simps Let_def)

text \<open>
  The lost entry is the access of a delivered instruction. For a block of three
  instructions with a load at instruction 0: \<^verbatim>\<open>fetchRegion(out, 3, md)\<close> takes the whole
  slice and publishes the access under sequence number 1; \<^verbatim>\<open>fetchRegion(out, 1, md)\<close>
  splits the slice, delivers instruction 0 without publishing anything, and the entry
  stays in the chain of the queued remainder.
\<close>

lemma split_fetch_loses_access:
  "(case fetchRegion
           (state_after (init_broker (byte_target []) None)
              [TranslatedBlock 0 [[1], [2], [3]],
               ExecTB 0 0x1000 [\<lparr>fbIndex = 0, fbIsStore = False, fbVAddr = 0x20, fbSize = 4\<rparr>]])
           3 3 (Some \<lparr>IndexMap = Map.empty, MemAccessCat = Map.empty\<rparr>) of
      Some (Returned R) \<Rightarrow> map_option (\<lambda>E. MemAccessCat E 1) (Exchanger R)
    | _ \<Rightarrow> None) = Some (Some \<lparr>IsStore = False, Addr = 0x20, Size = 4\<rparr>) \<and>
   (case fetchRegion
           (state_after (init_broker (byte_target []) None)
              [TranslatedBlock 0 [[1], [2], [3]],
               ExecTB 0 0x1000 [\<lparr>fbIndex = 0, fbIsStore = False, fbVAddr = 0x20, fbSize = 4\<rparr>]])
           3 1 (Some \<lparr>IndexMap = Map.empty, MemAccessCat = Map.empty\<rparr>) of
      Some (Returned R) \<Rightarrow>
        (Delivered R, map_option (\<lambda>E. MemAccessCat E 1) (Exchanger R),
         map MemoryAccesses (TBQueue (After R)))
    | _ \<Rightarrow> ([], None, [])) =
     ([1], Some None, [Some [(0, \<lparr>IsStore = False, Addr = 0x20, Size = 4\<rparr>)]])"
  by (simp add: run_simps fetch_simps build_chain_def add_access_def setMemoryAccessMD_def
      lower_bound.simps word_less_nat_alt)

text \<open>
  C3, as the code has it. When the new record translates to the index at the back of the
  chain, the back entry is replaced by the merged entry: store flags or-ed, address the
  smaller of the two, and size the larger end address minus the smaller address in the
  code's arithmetic, that is with end addresses taken modulo \<open>2^64\<close> and the difference
  modulo \<open>2^32\<close>. The size is \<open>max(addr1+size1, addr2+size2) - min(addr1, addr2)\<close> as a
  number when neither end address exceeds \<open>2^64 - 1\<close> and that difference is below
  \<open>2^32\<close>. The example is the chain built from a store at \<open>[0x20, 0x20+4)\<close> followed by a
  load at \<open>[0x22, 0x22+4)\<close> on instruction 0.
\<close>

theorem merge_rule:
  assumes "MemAccesses \<noteq> []"
    and "fst (last MemAccesses) =
           (case Skew (unat (fbIndex FbMA)) of Some di \<Rightarrow> di | None \<Rightarrow> unat (fbIndex FbMA))"
  shows "add_access Skew MemAccesses FbMA =
           butlast MemAccesses @
             [(fst (last MemAccesses), snd (last (add_access Skew MemAccesses FbMA)))] \<and>
         IsStore (snd (last (add_access Skew MemAccesses FbMA)))
           = (IsStore (snd (last MemAccesses)) \<or> fbIsStore FbMA) \<and>
         Addr (snd (last (add_access Skew MemAccesses FbMA)))
           = min (Addr (snd (last MemAccesses))) (fbVAddr FbMA) \<and>
         uint (Size (snd (last (add_access Skew MemAccesses FbMA))))
           = (max ((uint (Addr (snd (last MemAccesses))) + uint (Size (snd (last MemAccesses))))
                     mod 2 ^ 64)
                  ((uint (fbVAddr FbMA) + uint (fbSize FbMA)) mod 2 ^ 64)
              - min (uint (Addr (snd (last MemAccesses)))) (uint (fbVAddr FbMA))) mod 2 ^ 32 \<and>
         (unat (Addr (snd (last MemAccesses))) + unat (Size (snd (last MemAccesses))) < 2 ^ 64 \<and>
          unat (fbVAddr FbMA) + unat (fbSize FbMA) < 2 ^ 64 \<and>
          max (unat (Addr (snd (last MemAccesses))) + unat (Size (snd (last MemAccesses))))
              (unat (fbVAddr FbMA) + unat (fbSize FbMA))
            - min (unat (Addr (snd (last MemAccesses)))) (unat (fbVAddr FbMA)) < 2 ^ 32 \<longrightarrow>
          unat (Size (snd (last (add_access Skew MemAccesses FbMA))))
            = max (unat (Addr (snd (last MemAccesses))) + unat (Size (snd (last MemAccesses))))
                  (unat (fbVAddr FbMA) + unat (fbSize FbMA))
              - min (unat (Addr (snd (last MemAccesses)))) (unat (fbVAddr FbMA)))"
proof -
  let ?MA = "snd (last MemAccesses)"
  let ?M = "\<lparr>IsStore = (IsStore ?MA \<or> fbIsStore FbMA),
             Addr = min (Addr ?MA) (fbVAddr FbMA),
             Size = ucast (max (Addr ?MA + ucast (Size ?MA)) (fbVAddr FbMA + ucast (fbSize FbMA))
                           - min (Addr ?MA) (fbVAddr FbMA))\<rparr>"
  from assms have eq: "add_access Skew MemAccesses FbMA
                         = butlast MemAccesses @ [(fst (last MemAccesses), ?M)]"
    by (simp add: add_access_def Let_def)
  then have l: "snd (last (add_access Skew MemAccesses FbMA)) = ?M" by simp
  show ?thesis
    unfolding l
  proof (intro conjI impI)
    show "add_access Skew MemAccesses FbMA
            = butlast MemAccesses @ [(fst (last MemAccesses), ?M)]" by (rule eq)
  next
    show "IsStore ?M = (IsStore ?MA \<or> fbIsStore FbMA)" by simp
  next
    show "Addr ?M = min (Addr ?MA) (fbVAddr FbMA)" by simp
  next
    show "uint (Size ?M)
           = (max ((uint (Addr ?MA) + uint (Size ?MA)) mod 2 ^ 64)
                  ((uint (fbVAddr FbMA) + uint (fbSize FbMA)) mod 2 ^ 64)
              - min (uint (Addr ?MA)) (uint (fbVAddr FbMA))) mod 2 ^ 32"
      unfolding MDMemoryAccess.select_convs by (rule merge_size_modular)
  next
    assume "unat (Addr ?MA) + unat (Size ?MA) < 2 ^ 64 \<and>
          unat (fbVAddr FbMA) + unat (fbSize FbMA) < 2 ^ 64 \<and>
          max (unat (Addr ?MA) + unat (Size ?MA)) (unat (fbVAddr FbMA) + unat (fbSize FbMA))
            - min (unat (Addr ?MA)) (unat (fbVAddr FbMA)) < 2 ^ 32"
    then have "unat (ucast (max (Addr ?MA + ucast (Size ?MA))
                                (fbVAddr FbMA + ucast (fbSize FbMA))
                            - min (Addr ?MA) (fbVAddr FbMA)) :: 32 word)
           = max (unat (Addr ?MA) + unat (Size ?MA)) (unat (fbVAddr FbMA) + unat (fbSize FbMA))
              - min (unat (Addr ?MA)) (unat (fbVAddr FbMA))"
      using merge_size_exact [of "Addr ?MA" "Size ?MA" "fbVAddr FbMA" "fbSize FbMA"] by blast
    then show "unat (Size ?M)
            = max (unat (Addr ?MA) + unat (Size ?MA)) (unat (fbVAddr FbMA) + unat (fbSize FbMA))
              - min (unat (Addr ?MA)) (unat (fbVAddr FbMA))"
      unfolding MDMemoryAccess.select_convs .
  qed
qed

theorem merge_rule_witness:
  "build_chain Map.empty
     [\<lparr>fbIndex = 0, fbIsStore = True, fbVAddr = 0x20, fbSize = 4\<rparr>,
      \<lparr>fbIndex = 0, fbIsStore = False, fbVAddr = 0x22, fbSize = 4\<rparr>]
   = [(0, \<lparr>IsStore = True, Addr = 0x20, Size = 6\<rparr>)]"
proof -
  let ?C = "[(0, \<lparr>IsStore = True, Addr = 0x20, Size = 4\<rparr>)] :: MemoryAccessChain"
  let ?F = "\<lparr>fbIndex = 0, fbIsStore = False, fbVAddr = 0x22, fbSize = 4\<rparr>"
  let ?M = "snd (last (add_access Map.empty ?C ?F))"
  have first: "add_access Map.empty [] \<lparr>fbIndex = 0, fbIsStore = True, fbVAddr = 0x20, fbSize = 4\<rparr>
                 = ?C"
    by (simp add: add_access_def)
  have h1: "?C \<noteq> []" by simp
  have h2: "fst (last ?C) = (case Map.empty (unat (fbIndex ?F)) of Some di \<Rightarrow> di
                             | None \<Rightarrow> unat (fbIndex ?F))" by simp
  note m = merge_rule [where MemAccesses = ?C and Skew = Map.empty and FbMA = ?F, OF h1 h2]
  from m have eq: "add_access Map.empty ?C ?F = [(0, ?M)]" by simp
  from m have st: "IsStore ?M" by simp
  from m have ad: "Addr ?M = 0x20" by simp
  have fits: "unat (Addr (snd (last ?C))) + unat (Size (snd (last ?C))) < 2 ^ 64 \<and>
          unat (fbVAddr ?F) + unat (fbSize ?F) < 2 ^ 64 \<and>
          max (unat (Addr (snd (last ?C))) + unat (Size (snd (last ?C))))
              (unat (fbVAddr ?F) + unat (fbSize ?F))
            - min (unat (Addr (snd (last ?C)))) (unat (fbVAddr ?F)) < 2 ^ 32"
    by simp
  from m fits have "unat (Size ?M)
            = max (unat (Addr (snd (last ?C))) + unat (Size (snd (last ?C))))
                  (unat (fbVAddr ?F) + unat (fbSize ?F))
              - min (unat (Addr (snd (last ?C)))) (unat (fbVAddr ?F))" by blast
  then have sz: "unat (Size ?M) = 6" by simp
  from sz have "Size ?M = 6" by (simp add: word_unat_eq_iff)
  with st ad have "?M = \<lparr>IsStore = True, Addr = 0x20, Size = 6\<rparr>" by (cases ?M) simp
  with eq have second: "add_access Map.empty ?C ?F = [(0, \<lparr>IsStore = True, Addr = 0x20, Size = 6\<rparr>)]"
    by simp
  show ?thesis by (simp only: build_chain_def foldl.simps first second)
qed

text \<open>
  C3 as stated fails on the size when the arithmetic leaves its range. The size is an
  \<^verbatim>\<open>unsigned\<close>: a load of one byte at 0 merged with a store of one byte at \<open>0x100000005\<close>
  gets size 6, not \<open>0x100000006\<close>. The end address is a \<^verbatim>\<open>uint64_t\<close>: a load of four
  bytes at \<open>0xFFFFFFFFFFFFFFF0\<close> merged with a store of four bytes at
  \<open>0xFFFFFFFFFFFFFFFE\<close>, whose end wraps to 2, gets size 4, not 18.
\<close>

theorem merge_size_out_of_range:
  "add_access Map.empty [(0, \<lparr>IsStore = False, Addr = 0, Size = 1\<rparr>)]
     \<lparr>fbIndex = 0, fbIsStore = True, fbVAddr = 0x100000005, fbSize = 1\<rparr>
   = [(0, \<lparr>IsStore = True, Addr = 0, Size = 6\<rparr>)] \<and>
   max (0 + 1) (0x100000005 + 1) - min 0 0x100000005 = (0x100000006 :: nat) \<and>
   add_access Map.empty [(0, \<lparr>IsStore = False, Addr = 0xFFFFFFFFFFFFFFF0, Size = 4\<rparr>)]
     \<lparr>fbIndex = 0, fbIsStore = True, fbVAddr = 0xFFFFFFFFFFFFFFFE, fbSize = 4\<rparr>
   = [(0, \<lparr>IsStore = True, Addr = 0xFFFFFFFFFFFFFFF0, Size = 4\<rparr>)] \<and>
   max (0xFFFFFFFFFFFFFFF0 + 4) (0xFFFFFFFFFFFFFFFE + 4) - min 0xFFFFFFFFFFFFFFF0 0xFFFFFFFFFFFFFFFE
     = (18 :: nat)"
  by (simp add: add_access_def)


text \<open>
  C4, as the code has it. On a translation block that is not yet decoded, every entry
  \<open>skew_map[k]\<close> written by a returning \<^verbatim>\<open>disassemble\<close> is at least \<open>k\<close>, for a raw index
  \<open>k\<close> of the block. A defined entry implies more decoded than raw instructions when every
  raw instruction yields at least one decoded instruction (none is empty and the first
  decode of each succeeds).
\<close>

theorem skew_map_invariant:
  assumes "disassemble T Cur TB = Some (Inr (Cur', TB'))"
    and "MCInsts TB = []" and "SkewIndicies TB = Map.empty"
  shows "(\<forall>k v. SkewIndicies TB' k = Some v \<longrightarrow> k \<le> v \<and> k < length (RawInsts TB')) \<and>
         (first_decodes (select_disassembler T Cur TB) (RawInsts TB) (start_vaddr T TB) \<longrightarrow>
          (dom (SkewIndicies TB') \<noteq> {} \<longrightarrow> length (RawInsts TB') < length (MCInsts TB')))"
proof -
  from assms(1,2) have run:
    "disassemble_insts (select_disassembler T Cur TB) (start_vaddr T TB) (RawInsts TB)
       (start_vaddr T TB) 0 0 TB = Some (Inr TB')"
    by (auto simp: disassemble_def Let_def split: option.splits sum.splits)
  have raw: "RawInsts TB' = RawInsts TB"
    using disassemble_insts_fields [OF run] by simp
  have a: "\<forall>k v. SkewIndicies TB' k = Some v \<longrightarrow> k \<le> v \<and> k < length (RawInsts TB')"
  proof (intro allI impI)
    fix k v assume "SkewIndicies TB' k = Some v"
    from disassemble_insts_skew [OF run this] assms(3) raw
    show "k \<le> v \<and> k < length (RawInsts TB')" by simp
  qed
  have b: "length (RawInsts TB') < length (MCInsts TB')"
    if fd: "first_decodes (select_disassembler T Cur TB) (RawInsts TB) (start_vaddr T TB)"
      and dom: "dom (SkewIndicies TB') \<noteq> {}"
  proof -
    from disassemble_insts_count [OF run fd] obtain off' where
      len: "length (MCInsts TB') = length (MCInsts TB) + length (RawInsts TB) + (off' - 0)"
      and sk: "\<forall>j v. SkewIndicies TB' j = Some v \<longrightarrow> SkewIndicies TB j = Some v \<or> 0 < off'"
      by blast
    from dom obtain j v where "SkewIndicies TB' j = Some v" by (auto simp: dom_def)
    with sk assms(3) have "0 < off'" by auto
    with len raw assms(2) show ?thesis by simp
  qed
  from a b show ?thesis by blast
qed

text \<open>
  An instance: a block whose second raw instruction decodes once and then fails (the
  disassembler rejects the byte \<open>0xFF\<close>).
\<close>

theorem skew_map_invariant_witness:
  "SkewIndicies (snd (projr (the (disassemble (byte_target [0xFF]) (DisAsm (byte_target [0xFF]))
      (NewTB [[1, 1], [2, 0xFF]]))))) 1 = Some 2 \<and>
   (1::nat) \<le> 2 \<and>
   length (RawInsts (snd (projr (the (disassemble (byte_target [0xFF])
      (DisAsm (byte_target [0xFF])) (NewTB [[1, 1], [2, 0xFF]])))))) <
   length (MCInsts (snd (projr (the (disassemble (byte_target [0xFF])
      (DisAsm (byte_target [0xFF])) (NewTB [[1, 1], [2, 0xFF]]))))))"
proof -
  let ?T = "byte_target [0xFF]"
  let ?TB = "NewTB [[1, 1], [2, 0xFF]] :: 8 word TranslationBlock"
  let ?r = "disassemble ?T (DisAsm ?T) ?TB"
  have run: "?r = Some (Inr (fst (projr (the ?r)), snd (projr (the ?r))))"
    by (simp add: run_simps)
  have sk: "SkewIndicies (snd (projr (the ?r))) 1 = Some 2"
    by (simp add: run_simps)
  have fd: "first_decodes (select_disassembler ?T (DisAsm ?T) ?TB) (RawInsts ?TB)
              (start_vaddr ?T ?TB)"
    by (simp add: run_simps)
  have e: "MCInsts ?TB = []" "SkewIndicies ?TB = Map.empty" by (simp_all add: NewTB_def)
  have dom: "dom (SkewIndicies (snd (projr (the ?r)))) \<noteq> {}" using sk by auto
  from skew_map_invariant [OF run e] fd dom sk
  show ?thesis by (simp add: NewTB_def)
qed

text \<open>
  C4 as stated fails when a raw instruction yields no decoded instruction: the first raw
  instruction decodes into two instructions, the second one does not decode, so
  \<open>skew_map[1] = 2\<close> is defined while there are two decoded and two raw instructions.
\<close>

theorem skew_map_defined_without_growth:
  "map_option isl (disassemble (byte_target [0xFF]) (DisAsm (byte_target [0xFF]))
      (NewTB [[1, 1], [0xFF]])) = Some False \<and>
   SkewIndicies (snd (projr (the (disassemble (byte_target [0xFF]) (DisAsm (byte_target [0xFF]))
      (NewTB [[1, 1], [0xFF]]))))) 1 = Some 2 \<and>
   length (MCInsts (snd (projr (the (disassemble (byte_target [0xFF])
      (DisAsm (byte_target [0xFF])) (NewTB [[1, 1], [0xFF]])))))) = 2 \<and>
   length (RawInsts (snd (projr (the (disassemble (byte_target [0xFF])
      (DisAsm (byte_target [0xFF])) (NewTB [[1, 1], [0xFF]])))))) = 2"
  by (simp add: run_simps)

text \<open>
  C10. \<^verbatim>\<open>disassemble\<close> never runs forever, for a disassembler that reports at most as many
  bytes as it was given (the size is the number of bytes it consumed) and raw instructions
  whose length fits \<^verbatim>\<open>uint64_t\<close>: it returns, except that it stops with a call through a
  null pointer when the disassembler it selects does not exist and some raw instruction
  of the undecoded block has a byte. A reported size of zero counts as one
  (\<open>next_Index\<close>), so every successful decode moves the byte offset strictly forward and
  not beyond the raw instruction's length. The loop over a raw instruction exits when the
  offset has reached its length and at the first decode error.
\<close>

theorem disassemble_terminates:
  assumes "\<forall>d Bytes Address MCI DisAsmSize.
             select_disassembler T Cur TB = Some d \<longrightarrow>
             d Bytes Address = Some (MCI, DisAsmSize) \<longrightarrow> unat DisAsmSize \<le> length Bytes"
    and "\<forall>RawInst \<in> set (RawInsts TB). length RawInst < 2 ^ 64"
  shows "(if MCInsts TB = [] \<and> select_disassembler T Cur TB = None \<and>
             (\<exists>RawInst \<in> set (RawInsts TB). RawInst \<noteq> [])
          then disassemble T Cur TB = Some (Inl NullPointer)
          else \<exists>r. disassemble T Cur TB = Some (Inr r)) \<and>
         (\<forall>d. select_disassembler T Cur TB = Some d \<longrightarrow>
            (\<forall>RawInst \<in> set (RawInsts TB). \<forall>ByteIndex Address MCI DisAsmSize.
               unat ByteIndex < length RawInst \<longrightarrow>
               d (drop (unat ByteIndex) RawInst) Address = Some (MCI, DisAsmSize) \<longrightarrow>
               unat ByteIndex < unat (next_Index ByteIndex DisAsmSize) \<and>
               unat (next_Index ByteIndex DisAsmSize) \<le> length RawInst)) \<and>
         (\<forall>C RawInst CurVAddr StartVAddr ByteIndex N off TB1.
            \<not> unat ByteIndex < length RawInst \<longrightarrow>
            decode_loop C RawInst CurVAddr StartVAddr ByteIndex N off TB1
              = Some (Inr (off, TB1))) \<and>
         (\<forall>d RawInst CurVAddr StartVAddr ByteIndex N off TB1.
            unat ByteIndex < length RawInst \<longrightarrow>
            d (drop (unat ByteIndex) RawInst) (CurVAddr + ByteIndex) = None \<longrightarrow>
            decode_loop (Some d) RawInst CurVAddr StartVAddr ByteIndex N off TB1
              = Some (Inr (off, TB1)))"
proof (intro conjI)
  let ?C = "select_disassembler T Cur TB" and ?S = "start_vaddr T TB"
  show "if MCInsts TB = [] \<and> ?C = None \<and> (\<exists>RawInst \<in> set (RawInsts TB). RawInst \<noteq> [])
        then disassemble T Cur TB = Some (Inl NullPointer)
        else \<exists>r. disassemble T Cur TB = Some (Inr r)"
  proof (cases "MCInsts TB = []")
    case False
    then show ?thesis by (simp add: disassemble_def)
  next
    case True
    show ?thesis
    proof (cases ?C)
      case None
      with True disassemble_insts_null [of ?S "RawInsts TB" ?S 0 TB]
      show ?thesis by (auto simp: disassemble_def Let_def)
    next
      case (Some d)
      from assms(1) have c: "\<forall>d bytes a m sz. ?C = Some d \<longrightarrow> d bytes a = Some (m, sz)
          \<longrightarrow> unat sz \<le> length bytes" by blast
      from disassemble_insts_terminates [OF c assms(2)] obtain r where
        r: "disassemble_insts ?C ?S (RawInsts TB) ?S 0 0 TB = Some r" by blast
      show ?thesis
      proof (cases r)
        case (Inl f)
        with r disassemble_insts_fault [of ?C ?S "RawInsts TB" ?S 0 0 TB f] Some
        show ?thesis by simp
      next
        case (Inr TB')
        with r True Some show ?thesis by (simp add: disassemble_def Let_def)
      qed
    qed
  qed
next
  show "\<forall>d. select_disassembler T Cur TB = Some d \<longrightarrow>
            (\<forall>RawInst \<in> set (RawInsts TB). \<forall>ByteIndex Address MCI DisAsmSize.
               unat ByteIndex < length RawInst \<longrightarrow>
               d (drop (unat ByteIndex) RawInst) Address = Some (MCI, DisAsmSize) \<longrightarrow>
               unat ByteIndex < unat (next_Index ByteIndex DisAsmSize) \<and>
               unat (next_Index ByteIndex DisAsmSize) \<le> length RawInst)"
  proof (intro ballI allI impI)
    fix d RawInst Address MCI DisAsmSize and ByteIndex :: "64 word"
    assume sel: "select_disassembler T Cur TB = Some d"
      and R: "RawInst \<in> set (RawInsts TB)" and lt: "unat ByteIndex < length RawInst"
      and d: "d (drop (unat ByteIndex) RawInst) Address = Some (MCI, DisAsmSize)"
    from assms(1) sel d have "unat DisAsmSize \<le> length (drop (unat ByteIndex) RawInst)" by blast
    then have sz: "unat DisAsmSize \<le> length RawInst - unat ByteIndex" by simp
    from assms(2) R have "length RawInst < 2 ^ 64" by blast
    from next_Index_advances [OF lt this sz]
    show "unat ByteIndex < unat (next_Index ByteIndex DisAsmSize) \<and>
          unat (next_Index ByteIndex DisAsmSize) \<le> length RawInst" by blast
  qed
next
  show "\<forall>C RawInst CurVAddr StartVAddr ByteIndex N off TB1.
            \<not> unat ByteIndex < length RawInst \<longrightarrow>
            decode_loop C RawInst CurVAddr StartVAddr ByteIndex N off TB1
              = Some (Inr (off, TB1))"
    by (simp add: decode_loop_exits(1))
next
  show "\<forall>d RawInst CurVAddr StartVAddr ByteIndex N off TB1.
            unat ByteIndex < length RawInst \<longrightarrow>
            d (drop (unat ByteIndex) RawInst) (CurVAddr + ByteIndex) = None \<longrightarrow>
            decode_loop (Some d) RawInst CurVAddr StartVAddr ByteIndex N off TB1
              = Some (Inr (off, TB1))"
    by (simp add: decode_loop_exits(2))
qed

theorem disassemble_terminates_witness:
  "\<exists>r. disassemble (byte_target [0xFF]) (DisAsm (byte_target [0xFF])) (NewTB [[1, 1], [0xFF]])
     = Some (Inr r)"
proof -
  let ?T = "byte_target [0xFF]"
  let ?TB = "NewTB [[1, 1], [0xFF]] :: 8 word TranslationBlock"
  have sel: "select_disassembler ?T (DisAsm ?T) ?TB = Some (byte_decoder [0xFF])"
    by (simp add: run_simps)
  have 1: "\<forall>d Bytes Address MCI DisAsmSize.
             select_disassembler ?T (DisAsm ?T) ?TB = Some d \<longrightarrow>
             d Bytes Address = Some (MCI, DisAsmSize) \<longrightarrow> unat DisAsmSize \<le> length Bytes"
    unfolding sel by (auto dest: byte_decoder_contract)
  have 2: "\<forall>RawInst \<in> set (RawInsts ?TB). length RawInst < 2 ^ 64"
    by (simp add: NewTB_def)
  note t = disassemble_terminates [OF 1 2, THEN conjunct1]
  from t sel show ?thesis by (simp split: if_splits)
qed

text \<open>
  The stop at a null disassembler: on an ARM triple with \<^verbatim>\<open>+mclass\<close> there is no secondary
  disassembler, and a block at an odd (Thumb) address selects it. The receiver faults on
  the \<^verbatim>\<open>ExecTB\<close> event of such a block.
\<close>

lemma disassemble_null_secondary:
  "disassemble arm_mclass_target (DisAsm arm_mclass_target) ((NewTB [[1]])\<lparr>VAddr := 0x1001\<rparr>)
     = Some (Inl NullPointer) \<and>
   recvWorker (init_broker arm_mclass_target None) [TranslatedBlock 0 [[1]], ExecTB 0 0x1001 []]
     = Some (Inl NullPointer)"
  by (simp add: run_simps arm_mclass_target_def)

text \<open>
  C5, as the code has it. The sentinel event sets the end-of-stream flag and queues
  nothing; no message clears the flag again; a message that is not a non-sentinel
  \<^verbatim>\<open>ExecTB\<close> leaves the queue as it is. (\<^verbatim>\<open>tbExec\<close> never reads the flag: a non-sentinel
  \<^verbatim>\<open>ExecTB\<close> after the sentinel is handled like one before it.)
\<close>

theorem end_of_stream_flag:
  "tbExec B (- 1) (- 1) FbMAs = Some (Inr (B\<lparr>IsEndOfStream := True\<rparr>)) \<and>
   (IsEndOfStream B \<and> recvMessage B Msg = Some (Inr B') \<longrightarrow> IsEndOfStream B') \<and>
   (recvMessage B Msg = Some (Inr B') \<and>
    (\<forall>Idx PC F. Msg = ExecTB Idx PC F \<longrightarrow> Idx = - 1 \<and> PC = - 1) \<longrightarrow>
    TBQueue B' = TBQueue B)"
proof (intro conjI impI)
  show "tbExec B (- 1) (- 1) FbMAs = Some (Inr (B\<lparr>IsEndOfStream := True\<rparr>))"
    by (simp add: tbExec_def)
next
  assume a: "IsEndOfStream B \<and> recvMessage B Msg = Some (Inr B')"
  then have r: "recvMessage B Msg = Some (Inr B')" and f: "IsEndOfStream B" by simp_all
  from r show "IsEndOfStream B'"
  proof (cases rule: recvMessage_cases)
    case (meta LoadAddr)
    with f show ?thesis by (simp add: handleMetadata_def)
  next
    case (tb TBIndex Insts)
    from addTB_props [OF tb(2)] f show ?thesis by simp
  next
    case (exec Idx PC F)
    from tbExec_keeps_flag [OF exec(2) f] show ?thesis .
  qed
next
  assume a: "recvMessage B Msg = Some (Inr B') \<and>
    (\<forall>Idx PC F. Msg = ExecTB Idx PC F \<longrightarrow> Idx = - 1 \<and> PC = - 1)"
  then have r: "recvMessage B Msg = Some (Inr B')"
    and s: "\<forall>Idx PC F. Msg = ExecTB Idx PC F \<longrightarrow> Idx = - 1 \<and> PC = - 1" by simp_all
  from r show "TBQueue B' = TBQueue B"
  proof (cases rule: recvMessage_cases)
    case (meta LoadAddr)
    then show ?thesis by (simp add: handleMetadata_def)
  next
    case (tb TBIndex Insts)
    from addTB_props [OF tb(2)] show ?thesis by simp
  next
    case (exec Idx PC F)
    with s have "Idx = - 1 \<and> PC = - 1" by blast
    with exec(2) show ?thesis by (auto simp: tbExec_def)
  qed
qed

theorem end_of_stream_flag_witness:
  "IsEndOfStream
     (handleMetadata (state_after (init_broker (byte_target []) None) [ExecTB (- 1) (- 1) []])
        0x1000) \<and>
   TBQueue
     (handleMetadata (state_after (init_broker (byte_target []) None) [ExecTB (- 1) (- 1) []])
        0x1000) = []"
proof -
  let ?B = "state_after (init_broker (byte_target []) None) [ExecTB (- 1) (- 1) []]"
  have f: "IsEndOfStream ?B" and q: "TBQueue ?B = []" by (simp_all add: run_simps)
  have r: "recvMessage ?B (Metadata 0x1000) = Some (Inr (handleMetadata ?B 0x1000))"
    by (simp add: recvMessage_def)
  from end_of_stream_flag [of ?B "[]" "Metadata 0x1000" "handleMetadata ?B 0x1000"] f q r
  show ?thesis by simp
qed

text \<open>
  C5 as stated fails: after the sentinel has set the flag, an \<^verbatim>\<open>ExecTB\<close> for the registered
  block 0 still appends a slice.
\<close>

theorem slice_after_end_of_stream:
  "IsEndOfStream (state_after (init_broker (byte_target []) None)
      [TranslatedBlock 0 [[1], [2]], ExecTB (- 1) (- 1) []]) \<and>
   TBQueue (state_after (init_broker (byte_target []) None)
      [TranslatedBlock 0 [[1], [2]], ExecTB (- 1) (- 1) []]) = [] \<and>
   TBQueue (state_after (init_broker (byte_target []) None)
      [TranslatedBlock 0 [[1], [2]], ExecTB (- 1) (- 1) [], ExecTB 0 0x1000 []]) =
     [\<lparr>Index = 0, BeginIdx = 0, EndIdx = 0xFFFF, Region = None, MemoryAccesses = None\<rparr>]"
  by (simp add: run_simps)

text \<open>
  C6. With a non-zero size, an empty queue and the end-of-stream flag set, \<^verbatim>\<open>fetchRegion\<close>
  returns \<open>(-1, RegionDescriptor(true))\<close>, writes no instruction and leaves the broker and
  the exchanger untouched.
\<close>

theorem fetch_region_end_of_stream:
  assumes "Size0 \<noteq> 0" and "TBQueue B = []" and "IsEndOfStream B"
  shows "fetchRegion B MCISsize Size0 MDE =
           Some (Returned \<lparr>Count = - 1, Desc = \<lparr>IsEnd = True, Text = ''''\<rparr>, Delivered = [],
                           Exchanger = MDE, After = B\<rparr>)"
  using assms by (simp add: fetchRegion_def)

theorem fetch_region_end_of_stream_witness:
  "fetchRegion (state_after (init_broker (byte_target []) None) [ExecTB (- 1) (- 1) []]) 4 4 None =
     Some (Returned \<lparr>Count = - 1, Desc = \<lparr>IsEnd = True, Text = ''''\<rparr>, Delivered = [],
             Exchanger = None,
             After = state_after (init_broker (byte_target []) None) [ExecTB (- 1) (- 1) []]\<rparr>)"
proof -
  let ?B = "state_after (init_broker (byte_target []) None) [ExecTB (- 1) (- 1) []]"
  have f: "IsEndOfStream ?B" and q: "TBQueue ?B = []" by (simp_all add: run_simps)
  have "(4::int) \<noteq> 0" by simp
  from fetch_region_end_of_stream [OF this q f] show ?thesis .
qed

text \<open>
  C8. For all arguments, \<^verbatim>\<open>fetch\<close> waits, faults or diverges exactly when \<^verbatim>\<open>fetchRegion\<close>
  does, and otherwise returns the first component of \<^verbatim>\<open>fetchRegion\<close>'s pair with the same
  output buffer, exchanger and broker.
\<close>

theorem fetch_is_first_of_fetchRegion:
  "fetch B MCISsize Size0 MDE =
     (case fetchRegion B MCISsize Size0 MDE of
        None \<Rightarrow> None
      | Some Blocked \<Rightarrow> Some Blocked
      | Some (Faulted f) \<Rightarrow> Some (Faulted f)
      | Some (Returned R) \<Rightarrow>
          Some (Returned \<lparr>fCount = Count R, fDelivered = Delivered R,
                           fExchanger = Exchanger R, fAfter = After R\<rparr>))"
  by (simp add: fetch_def split: option.splits outcome.splits)




text \<open>
  C7. The round trip fails on an ordinary queue without regions: block 0, of two
  instructions, is executed twice and the stream is ended, so the queue holds two slices
  \<open>[0, 0xFFFF)\<close> totalling four instructions. One \<^verbatim>\<open>fetch(out, 4)\<close> delivers all four.
  Fetching one by one, the first two calls deliver the two instructions of the first
  slice and leave its remainder \<open>[2, 0xFFFF)\<close> at the head of the queue: the selection
  loop measures a slice by \<open>min(|decoded|, end - begin)\<close>, which is 2 for this remainder,
  not the 0 instructions it still holds. The third call splits it again and delivers
  nothing, the fourth reads \<^verbatim>\<open>MCInsts[3]\<close>, past the end of the block, and the second
  slice is never reached.
\<close>

theorem fetch_one_by_one_reads_past_block:
  "map (\<lambda>s. (BeginIdx s, EndIdx s))
     (TBQueue (state_after (init_broker (byte_target []) None)
        [TranslatedBlock 0 [[1], [2]], ExecTB 0 0x1000 [], ExecTB 0 0x1000 [],
         ExecTB (- 1) (- 1) []]))
     = [(0, 0xFFFF), (0, 0xFFFF)] \<and>
   delivered_by
     (fetch (state_after (init_broker (byte_target []) None)
        [TranslatedBlock 0 [[1], [2]], ExecTB 0 0x1000 [], ExecTB 0 0x1000 [],
         ExecTB (- 1) (- 1) []]) 4 4 None) = Some [1, 2, 1, 2] \<and>
   map_option fst
     (fetch_repeat 3
        (state_after (init_broker (byte_target []) None)
           [TranslatedBlock 0 [[1], [2]], ExecTB 0 0x1000 [], ExecTB 0 0x1000 [],
            ExecTB (- 1) (- 1) []]) 4 1 None) = Some [1, 2] \<and>
   fetch
     (snd (the (fetch_repeat 3
        (state_after (init_broker (byte_target []) None)
           [TranslatedBlock 0 [[1], [2]], ExecTB 0 0x1000 [], ExecTB 0 0x1000 [],
            ExecTB (- 1) (- 1) []]) 4 1 None))) 4 1 None = Some (Faulted OutOfBounds) \<and>
   fetch_repeat 4
     (state_after (init_broker (byte_target []) None)
        [TranslatedBlock 0 [[1], [2]], ExecTB 0 0x1000 [], ExecTB 0 0x1000 [],
         ExecTB (- 1) (- 1) []]) 4 1 None = None"
  by (simp add: run_simps fetch_simps fetch_def delivered_by_def fetch_repeat_numeral
      word_less_nat_alt)

text \<open>
  Where the round trip holds: on a queue in which every slice but the last ends within the
  decoded instructions of its block and ends no region, and the last slice begins within
  those of its block, \<open>N\<close> successive \<^verbatim>\<open>fetch(out, 1)\<close> calls and one \<^verbatim>\<open>fetch(out, N)\<close> both
  deliver the \<open>N\<close> queued instructions in order. A queue of one slice \<open>[0, 0xFFFF)\<close> is of
  this kind.
\<close>

lemma fetch_round_trip_within:
  assumes "queue_within (TBs B) (TBQueue B)"
    and "N = length (queued_insts (TBs B) (TBQueue B))"
    and "N \<le> MCISsize" and "1 \<le> MCISsize"
  shows "map_option fst (fetch_repeat N B MCISsize 1 MDE)
           = Some (queued_insts (TBs B) (TBQueue B)) \<and>
         delivered_by (fetch B MCISsize (int N) MDE) = Some (queued_insts (TBs B) (TBQueue B))"
proof
  from fetch_repeat_take [OF assms(1) _ assms(4), of N MDE] assms(2)
  show "map_option fst (fetch_repeat N B MCISsize 1 MDE)
           = Some (queued_insts (TBs B) (TBQueue B))" by auto
next
  show "delivered_by (fetch B MCISsize (int N) MDE) = Some (queued_insts (TBs B) (TBQueue B))"
  proof (cases "N = 0")
    case True
    with assms(2) show ?thesis by (simp add: fetch_def fetchRegion_def delivered_by_def)
  next
    case False
    with assms(2) have ne: "TBQueue B \<noteq> []" by (auto simp: queued_insts_def)
    from False assms(2,3) have "0 < int N" "int N \<le> int MCISsize"
      "nat (int N) \<le> length (queued_insts (TBs B) (TBQueue B))" by simp_all
    from fetchRegion_take [OF assms(1) ne this, of MDE] assms(2) show ?thesis
      by (auto simp: fetch_def delivered_by_def)
  qed
qed

lemma fetch_round_trip_one_slice:
  "map_option fst
     (fetch_repeat 3
        (state_after (init_broker (byte_target []) None)
           [TranslatedBlock 0 [[1], [2], [3]], ExecTB 0 0x1000 []]) 3 1 None) = Some [1, 2, 3] \<and>
   delivered_by
     (fetch (state_after (init_broker (byte_target []) None)
               [TranslatedBlock 0 [[1], [2], [3]], ExecTB 0 0x1000 []]) 3 3 None) = Some [1, 2, 3]"
proof -
  let ?B = "state_after (init_broker (byte_target []) None)
              [TranslatedBlock 0 [[1], [2], [3]], ExecTB 0 0x1000 []]"
  have q: "TBQueue ?B = [\<lparr>Index = 0, BeginIdx = 0, EndIdx = - 1, Region = None,
                           MemoryAccesses = None\<rparr>]"
    by (simp add: run_simps)
  have m: "map_option MCInsts (TBs ?B ! 0) = Some [1, 2, 3]" and l: "length (TBs ?B) = 1"
    by (simp_all add: run_simps)
  then obtain TB where TB: "TBs ?B ! 0 = Some TB" "MCInsts TB = [1, 2, 3]" by auto
  have qi: "queued_insts (TBs ?B) (TBQueue ?B) = [1, 2, 3]"
    using TB by (simp add: q queued_insts_def slice_insts_def unat16_max)
  have w: "queue_within (TBs ?B) (TBQueue ?B)"
    using TB l
    by (simp add: q queue_within_def slice_open_def slice_valid_def word_less_nat_alt unat16_max)
  have n: "(3::nat) = length (queued_insts (TBs ?B) (TBQueue ?B))" by (simp add: qi)
  from fetch_round_trip_within [OF w n, of 3 None] qi show ?thesis by simp
qed

text \<open>
  A fetch stops at a slice that ends a region: with two slices of two instructions, each
  ending the region, four \<^verbatim>\<open>fetch(out, 1)\<close> calls deliver all four instructions and one
  \<^verbatim>\<open>fetch(out, 4)\<close> stops after the first slice.
\<close>

lemma fetch_stops_at_region_end:
  "map_option fst
     (fetch_repeat 4
        (state_after (init_broker (byte_target []) (Some unit_region))
           [TranslatedBlock 0 [[1], [2]], ExecTB 0 0 [], ExecTB 0 0 []]) 4 1 None)
     = Some [1, 2, 1, 2] \<and>
   delivered_by
     (fetch (state_after (init_broker (byte_target []) (Some unit_region))
               [TranslatedBlock 0 [[1], [2]], ExecTB 0 0 [], ExecTB 0 0 []]) 4 4 None)
     = Some [1, 2]"
  by (simp add: run_simps fetch_simps fetch_def delivered_by_def unit_region_def
      fetch_repeat_numeral)

end
